theory Spec2Isabelle
  imports Main "HOL-Library.Word"
begin

unbundle bit_operations_syntax

section \<open>The cashaddr codec of \<^verbatim>\<open>bitcoincashUtils/cashAddress.ts\<close>\<close>

text \<open>
  A shallow embedding of \<^verbatim>\<open>src/common/utxobased/keymanager/bitcoincashUtils/cashAddress.ts\<close>.
  Conventions:
  \<^item> a JavaScript \<^verbatim>\<open>number\<close> holding an integer is an \<open>int\<close>; the 32-bit operators
    \<^verbatim>\<open><<\<close>, \<^verbatim>\<open>>>\<close>, \<^verbatim>\<open>|\<close>, \<^verbatim>\<open>&\<close> convert their operands with ToInt32 and
    take the shift count modulo 32, as ECMAScript prescribes;
  \<^item> a \<^verbatim>\<open>Buffer\<close> is a list of bytes (\<open>8 word list\<close>);
  \<^item> a string is a list of UTF-16 code units below 256 (the type \<open>char\<close>), that is
    a string of ASCII and Latin-1 characters;
  \<^item> a thrown \<^verbatim>\<open>Error\<close> is a value \<open>Inl e\<close> of the sum type \<open>error + 'a\<close>;
  \<^item> a call that does not return is the value \<open>None\<close>.
\<close>

subsection \<open>Data\<close>

datatype CashaddrTypeEnum = pubkeyhash | scripthash

record BitcoinCashScriptHash =
  scriptHash :: "8 word list"
  type :: CashaddrTypeEnum

text \<open>
  The program throws \<^verbatim>\<open>Error\<close> objects that differ in their message only; the
  constructors carry the names the specification gives them (section 7):
  \<^item> \<open>InvalidCharacter\<close>: thrown by the base-32 decoder;
  \<^item> \<open>InvalidArgument\<close>: \<^verbatim>\<open>InvalidArgument in function convertBits\<close>;
  \<^item> \<open>InvalidPadding\<close>: \<^verbatim>\<open>InvalidState: Conversion requires padding but strict mode was used\<close>;
  \<^item> \<open>MixedCase\<close>: \<^verbatim>\<open>InvalidArgument: ... has Mixed case\<close>;
  \<^item> \<open>InvalidFormat\<close>: \<^verbatim>\<open>InvalidArgument: ... has invalid format\<close>;
  \<^item> \<open>InvalidChecksum\<close>: \<^verbatim>\<open>InvalidArgument: ... has invalid checksum\<close>;
  \<^item> \<open>UnsupportedHashSize\<close>: \<^verbatim>\<open>Invalid hash size:\<close>;
  \<^item> \<open>InvalidVersionByte\<close>: \<^verbatim>\<open>cashaddress converter produced bad version byte\<close>;
  \<^item> \<open>HashSizeMismatch\<close>: \<^verbatim>\<open>InvalidArgument: ... has invalid hash size\<close>;
  \<^item> \<open>InvalidAddressType\<close>: \<^verbatim>\<open>Invalid address type in version byte:\<close>.
\<close>

datatype error =
    InvalidCharacter
  | InvalidArgument
  | InvalidPadding
  | MixedCase
  | InvalidFormat
  | InvalidChecksum
  | UnsupportedHashSize
  | InvalidVersionByte
  | HashSizeMismatch
  | InvalidAddressType

subsection \<open>The 32-bit integer operators of JavaScript\<close>

definition ToInt32 :: "int \<Rightarrow> int" where
  "ToInt32 x = signed_take_bit 31 x"

definition js_shl :: "int \<Rightarrow> int \<Rightarrow> int" where
  "js_shl x n = ToInt32 (push_bit (nat (n mod 32)) (ToInt32 x))"

definition js_shr :: "int \<Rightarrow> int \<Rightarrow> int" where
  "js_shr x n = drop_bit (nat (n mod 32)) (ToInt32 x)"

definition js_or :: "int \<Rightarrow> int \<Rightarrow> int" where
  "js_or x y = ToInt32 x OR ToInt32 y"

definition js_and :: "int \<Rightarrow> int \<Rightarrow> int" where
  "js_and x y = ToInt32 x AND ToInt32 y"

subsection \<open>The big-integer helper \<^verbatim>\<open>./bn\<close>\<close>

text \<open>
  Modelled from the spec: the module \<^verbatim>\<open>./bn\<close> (class \<^verbatim>\<open>BN\<close>) is not among the
  sources. Section 9 of the specification describes it as exact unsigned integer
  arithmetic; its methods \<^verbatim>\<open>shrn\<close>, \<^verbatim>\<open>shln\<close>, \<^verbatim>\<open>and\<close>, \<^verbatim>\<open>xor\<close> are the
  shifts and bitwise operations of section 4.3 on non-negative integers, \<^verbatim>\<open>eqn\<close> is
  equality with a number and \<^verbatim>\<open>toNumber\<close> the value itself.
\<close>

definition BN_shrn :: "int \<Rightarrow> nat \<Rightarrow> int" where
  "BN_shrn x n = drop_bit n x"

definition BN_shln :: "int \<Rightarrow> nat \<Rightarrow> int" where
  "BN_shln x n = push_bit n x"

definition BN_and :: "int \<Rightarrow> int \<Rightarrow> int" where
  "BN_and x y = x AND y"

definition BN_xor :: "int \<Rightarrow> int \<Rightarrow> int" where
  "BN_xor x y = x XOR y"

definition BN_eqn :: "int \<Rightarrow> int \<Rightarrow> bool" where
  "BN_eqn x n = (x = n)"

subsection \<open>polymod\<close>

definition GENERATOR :: "int list" where
  "GENERATOR = [0x98f2bc8e61, 0x79b76d99e2, 0xf33e5fb3c4, 0xae2eabe2a8, 0x1e4f43e470]"

text \<open>The inner loop of \<^verbatim>\<open>polymod\<close>, over the indices \<open>i\<close> of \<open>GENERATOR\<close>.\<close>

fun generatorLoop :: "int \<Rightarrow> nat list \<Rightarrow> int \<Rightarrow> int" where
  "generatorLoop topBits [] checksum = checksum"
| "generatorLoop topBits (i # is) checksum =
     (let D = BN_and (BN_shrn topBits i) 1
      in generatorLoop topBits is
           (if BN_eqn D 1 then BN_xor checksum (GENERATOR ! i) else checksum))"

text \<open>One round of the outer loop of \<^verbatim>\<open>polymod\<close>.\<close>

definition polymodStep :: "int \<Rightarrow> int \<Rightarrow> int" where
  "polymodStep checksum value =
     (let C = 0x07ffffffff;
          topBits = BN_shrn checksum 35;
          checksum1 = BN_and checksum C;
          checksum2 = BN_xor (BN_shln checksum1 5) value
      in generatorLoop topBits [0..<length GENERATOR] checksum2)"

definition polymod :: "int list \<Rightarrow> int" where
  "polymod data = BN_xor (foldl polymodStep 1 data) 1"

subsection \<open>convertBits\<close>

text \<open>
  The loop \<^verbatim>\<open>while (bits >= to) { bits -= to; result.push((accumulator >> bits) & mask) }\<close>.
  It does not return when \<open>to \<le> 0\<close> and \<open>to \<le> bits\<close>.
\<close>

partial_function (option) pushLoop ::
    "int \<Rightarrow> int \<Rightarrow> int \<Rightarrow> int \<Rightarrow> int list \<Rightarrow> (int \<times> int list) option" where
  "pushLoop accumulator to mask' bits result =
     (if bits \<ge> to
      then pushLoop accumulator to mask' (bits - to)
             (result @ [js_and (js_shr accumulator (bits - to)) mask'])
      else Some (bits, result))"

declare pushLoop.simps [code]

text \<open>
  The loop over \<^verbatim>\<open>data\<close>; the state is \<open>(accumulator, bits, result)\<close>.
\<close>

fun convertLoop ::
    "int list \<Rightarrow> int \<Rightarrow> int \<Rightarrow> int \<Rightarrow> int \<times> int \<times> int list \<Rightarrow>
     (error + int \<times> int \<times> int list) option" where
  "convertLoop [] from to mask' st = Some (Inr st)"
| "convertLoop (value # data) from to mask' (accumulator, bits, result) =
     (if value < 0 \<or> js_shr value from \<noteq> 0 then Some (Inl InvalidArgument)
      else
        (let accumulator1 = js_or (js_shl accumulator from) value
         in case pushLoop accumulator1 to mask' (bits + from) result of
              None \<Rightarrow> None
            | Some (bits1, result1) \<Rightarrow>
                convertLoop data from to mask' (accumulator1, bits1, result1)))"

text \<open>
  \<^verbatim>\<open>convertBits(data, from, to, strict)\<close>. An omitted \<^verbatim>\<open>strict\<close> is \<open>False\<close>. The
  \<^verbatim>\<open>isNaN\<close> and \<^verbatim>\<open>null\<close> tests after the loop are never true of integers and are
  left out.
\<close>

definition convertBits :: "int list \<Rightarrow> int \<Rightarrow> int \<Rightarrow> bool \<Rightarrow> (error + int list) option" where
  "convertBits data from to strict =
     (let mask' = js_shl 1 to - 1
      in case convertLoop data from to mask' (0, 0, []) of
           None \<Rightarrow> None
         | Some (Inl e) \<Rightarrow> Some (Inl e)
         | Some (Inr (accumulator, bits, result)) \<Rightarrow>
             (if \<not> strict
              then (if bits > 0
                    then Some (Inr (result @ [js_and (js_shl accumulator (to - bits)) mask']))
                    else Some (Inr result))
              else if bits \<ge> from \<or> js_and (js_shl accumulator (to - bits)) mask' \<noteq> 0
                   then Some (Inl InvalidPadding)
                   else Some (Inr result)))"

subsection \<open>Strings\<close>

text \<open>
  \<^verbatim>\<open>String.prototype.toLowerCase\<close> and \<^verbatim>\<open>toUpperCase\<close> follow the Unicode case
  mappings. On code units below 256:
  \<^item> \<^verbatim>\<open>toLowerCase\<close> adds 32 to A..Z (65..90), to U+00C0..U+00D6 (192..214) and to
    U+00D8..U+00DE (216..222), and leaves every other code unit as it is;
  \<^item> \<^verbatim>\<open>toUpperCase\<close> subtracts 32 from a..z (97..122), from U+00E0..U+00F6
    (224..246) and from U+00F8..U+00FE (248..254); it maps U+00DF (223, sharp s) to
    the two letters \<open>SS\<close>, U+00B5 (181, micro sign) to U+039C and U+00FF (255) to
    U+0178, and leaves every other code unit as it is.
  The last two images are not below 256. \<open>toUpperCase\<close> yields \<open>None\<close> for a
  string that holds U+00B5 or U+00FF: its uppercase form is not a string of this
  model, and differs from every string of this model.
\<close>

definition lowerChar :: "char \<Rightarrow> char" where
  "lowerChar c =
     (let n = (of_char c :: nat)
      in if (65 \<le> n \<and> n \<le> 90) \<or> (192 \<le> n \<and> n \<le> 214) \<or> (216 \<le> n \<and> n \<le> 222)
         then char_of (n + 32)
         else c)"

definition upperChar :: "char \<Rightarrow> string option" where
  "upperChar c =
     (let n = (of_char c :: nat)
      in if (97 \<le> n \<and> n \<le> 122) \<or> (224 \<le> n \<and> n \<le> 246) \<or> (248 \<le> n \<and> n \<le> 254)
         then Some [char_of (n - 32)]
         else if n = 223 then Some ''SS''
         else if n = 181 \<or> n = 255 then None
         else Some [c])"

definition toLowerCase :: "string \<Rightarrow> string" where
  "toLowerCase s = map lowerChar s"

fun toUpperCase :: "string \<Rightarrow> string option" where
  "toUpperCase [] = Some []"
| "toUpperCase (c # cs) =
     (case upperChar c of
        None \<Rightarrow> None
      | Some u \<Rightarrow>
          (case toUpperCase cs of
             None \<Rightarrow> None
           | Some us \<Rightarrow> Some (u @ us)))"

fun String_split :: "char \<Rightarrow> string \<Rightarrow> string list" where
  "String_split sep [] = [[]]"
| "String_split sep (c # cs) =
     (if c = sep then [] # String_split sep cs
      else (let pieces = String_split sep cs in (c # hd pieces) # tl pieces))"

text \<open>The ASCII strings: every code unit is below 128.\<close>

definition ascii :: "string \<Rightarrow> bool" where
  "ascii s = list_all (\<lambda>c. (of_char c :: nat) < 128) s"

subsection \<open>The alphabet codec \<^verbatim>\<open>./base32\<close>\<close>

text \<open>
  Modelled from the spec: the module \<^verbatim>\<open>./base32\<close> (\<^verbatim>\<open>encode\<close>, \<^verbatim>\<open>decode\<close>) is not
  among the sources. Section 4.1 of the specification: the alphabet has 32 characters,
  each mapped to its index; \<^verbatim>\<open>encode\<close> concatenates the mapped characters of symbols
  in 0..31; \<^verbatim>\<open>decode\<close> maps each character, case-insensitively, to its index and
  fails with \<open>InvalidCharacter\<close> on a character outside the alphabet. The
  specification prints the first 31 characters of the alphabet; the character of
  symbol 31 is taken to be \<open>l\<close>, the last character of the cashaddr alphabet. The
  specification leaves \<^verbatim>\<open>encode\<close> open on a value outside 0..31; the model fails there
  with \<open>InvalidArgument\<close>.
\<close>

definition CHARSET :: string where
  "CHARSET = ''qpzry9x8gf2tvdw0s3jn54khce6mua7l''"

fun base32_encode :: "int list \<Rightarrow> error + string" where
  "base32_encode [] = Inr []"
| "base32_encode (v # vs) =
     (if v < 0 \<or> v \<ge> 32 then Inl InvalidArgument
      else (case base32_encode vs of
              Inl e \<Rightarrow> Inl e
            | Inr s \<Rightarrow> Inr (CHARSET ! nat v # s)))"

fun index_of :: "char \<Rightarrow> string \<Rightarrow> int option" where
  "index_of c [] = None"
| "index_of c (x # xs) =
     (if c = x then Some 0 else map_option (\<lambda>i. i + 1) (index_of c xs))"

fun base32_decode :: "string \<Rightarrow> error + int list" where
  "base32_decode [] = Inr []"
| "base32_decode (c # cs) =
     (case index_of (lowerChar c) CHARSET of
        None \<Rightarrow> Inl InvalidCharacter
      | Some v \<Rightarrow>
          (case base32_decode cs of
             Inl e \<Rightarrow> Inl e
           | Inr vs \<Rightarrow> Inr (v # vs)))"

subsection \<open>hashToCashAddress\<close>

definition prefixToArray :: "string \<Rightarrow> int list" where
  "prefixToArray prefix = map (\<lambda>c. js_and (of_char c) 31) prefix"

text \<open>The loop of \<^verbatim>\<open>checksumToArray\<close>; \<open>n\<close> counts the rounds that remain.\<close>

fun checksumLoop :: "nat \<Rightarrow> int \<Rightarrow> int list \<Rightarrow> int list" where
  "checksumLoop 0 checksum result = result"
| "checksumLoop (Suc n) checksum result =
     checksumLoop n (BN_shrn checksum 5) (result @ [BN_and checksum 31])"

definition checksumToArray :: "int \<Rightarrow> int list" where
  "checksumToArray checksum = rev (checksumLoop 8 checksum [])"

text \<open>
  \<^verbatim>\<open>getTypeBits\<close>: the \<^verbatim>\<open>default\<close> branch of the switch is excluded by the type
  \<open>CashaddrTypeEnum\<close> of the argument.
\<close>

fun getTypeBits :: "CashaddrTypeEnum \<Rightarrow> int" where
  "getTypeBits pubkeyhash = 0"
| "getTypeBits scripthash = 8"

definition getHashSizeBits :: "8 word list \<Rightarrow> error + int" where
  "getHashSizeBits hash =
     (let n = int (length hash) * 8 in
      if n = 160 then Inr 0
      else if n = 192 then Inr 1
      else if n = 224 then Inr 2
      else if n = 256 then Inr 3
      else if n = 320 then Inr 4
      else if n = 384 then Inr 5
      else if n = 448 then Inr 6
      else if n = 512 then Inr 7
      else Inl UnsupportedHashSize)"

text \<open>
  \<^verbatim>\<open>hashToCashAddress\<close>. The first argument is \<^verbatim>\<open>hashBuffer\<close>, the bytes that
  \<^verbatim>\<open>Buffer.from(scriptHash, 'hex')\<close> (a library call) yields for the hexadecimal
  string \<^verbatim>\<open>scriptHash\<close>; \<^verbatim>\<open>Array.prototype.slice.call(hashBuffer, 0)\<close> is the list
  of the bytes as numbers.
\<close>

definition hashToCashAddress ::
    "8 word list \<Rightarrow> CashaddrTypeEnum \<Rightarrow> string \<Rightarrow> bool \<Rightarrow> (error + string) option" where
  "hashToCashAddress hashBuffer type' cashAddrPrefix includePrefix =
     (let eight0 = [0, 0, 0, 0, 0, 0, 0, 0];
          prefixData = prefixToArray cashAddrPrefix @ [0]
      in case getHashSizeBits hashBuffer of
           Inl e \<Rightarrow> Some (Inl e)
         | Inr hashSizeBits \<Rightarrow>
             (let versionByte = getTypeBits type' + hashSizeBits;
                  arr = map uint hashBuffer
              in case convertBits (versionByte # arr) 8 5 False of
                   None \<Rightarrow> None
                 | Some (Inl e) \<Rightarrow> Some (Inl e)
                 | Some (Inr payloadData) \<Rightarrow>
                     (let checksumData = prefixData @ payloadData @ eight0;
                          payload = payloadData @ checksumToArray (polymod checksumData)
                      in case base32_encode payload of
                           Inl e \<Rightarrow> Some (Inl e)
                         | Inr encoded \<Rightarrow>
                             Some (Inr (if includePrefix
                                        then cashAddrPrefix @ '':'' @ encoded
                                        else encoded)))))"

subsection \<open>cashAddressToHash\<close>

definition getHashSize :: "int \<Rightarrow> int" where
  "getHashSize versionByte =
     (let n = js_and versionByte 7 in
      if n = 0 then 160
      else if n = 1 then 192
      else if n = 2 then 224
      else if n = 3 then 256
      else if n = 4 then 320
      else if n = 5 then 384
      else if n = 6 then 448
      else if n = 7 then 512
      else 0)"

text \<open>
  \<^verbatim>\<open>hasSingleCase\<close>: the comparison \<^verbatim>\<open>string === upperCase\<close> is false when the
  uppercase form is not a string of this model.
\<close>

definition hasSingleCase :: "string \<Rightarrow> bool" where
  "hasSingleCase string =
     (let lowerCase = toLowerCase string;
          upperCase = toUpperCase string
      in string = lowerCase \<or> Some string = upperCase)"

definition validChecksum :: "string \<Rightarrow> int list \<Rightarrow> bool" where
  "validChecksum prefix payload =
     (let prefixData = prefixToArray prefix @ [0]
      in BN_eqn (polymod (prefixData @ payload)) 0)"

definition getType :: "int \<Rightarrow> error + CashaddrTypeEnum" where
  "getType versionByte =
     (let n = js_and versionByte 120 in
      if n = 0 then Inr pubkeyhash
      else if n = 8 then Inr scripthash
      else Inl InvalidAddressType)"

text \<open>
  The loop over \<^verbatim>\<open>cashAddrPrefixes\<close>: the first candidate whose checksum validates is
  selected and the loop left.
\<close>

fun candidateLoop :: "string list \<Rightarrow> int list \<Rightarrow> string option" where
  "candidateLoop [] payload = None"
| "candidateLoop (candidatePrefix # rest) payload =
     (if validChecksum candidatePrefix payload then Some candidatePrefix
      else candidateLoop rest payload)"

text \<open>
  The first half of \<^verbatim>\<open>cashAddressToHash\<close>, up to the choice of the prefix: it
  yields the variables \<^verbatim>\<open>prefix\<close> and \<^verbatim>\<open>payload\<close> as they stand before
  \<^verbatim>\<open>convertBits\<close> is called.
\<close>

definition resolvePrefix :: "string \<Rightarrow> string list \<Rightarrow> error + string \<times> int list" where
  "resolvePrefix address cashAddrPrefixes =
     (if \<not> hasSingleCase address then Inl MixedCase
      else
        (let address1 = toLowerCase address;
             pieces = String_split CHR '':'' address1
         in if length pieces > 2 then Inl InvalidFormat
            else
              (let (prefix, encodedPayload) =
                     (if length pieces = 2 then (Some (pieces ! 0), pieces ! 1)
                      else (None, pieces ! 0))
               in case base32_decode (toLowerCase encodedPayload) of
                    Inl e \<Rightarrow> Inl e
                  | Inr payload \<Rightarrow>
                      (case prefix of
                         Some p \<Rightarrow>
                           (if \<not> validChecksum p payload then Inl InvalidChecksum
                            else Inr (p, payload))
                       | None \<Rightarrow>
                           (case candidateLoop cashAddrPrefixes payload of
                              None \<Rightarrow> Inl InvalidChecksum
                            | Some p \<Rightarrow> Inr (p, payload))))))"

text \<open>
  \<^verbatim>\<open>cashAddressToHash\<close>. \<^verbatim>\<open>payload.slice(0, -8)\<close> drops the last eight symbols
  and is empty when there are fewer; \<^verbatim>\<open>convertedBits.shift()\<close> is \<^verbatim>\<open>undefined\<close> on
  the empty array; \<^verbatim>\<open>Buffer.from(hash)\<close> stores every number modulo 256.
\<close>

definition cashAddressToHash ::
    "string \<Rightarrow> string list \<Rightarrow> (error + BitcoinCashScriptHash) option" where
  "cashAddressToHash address cashAddrPrefixes =
     (case resolvePrefix address cashAddrPrefixes of
        Inl e \<Rightarrow> Some (Inl e)
      | Inr (prefix, payload) \<Rightarrow>
          (case convertBits (take (length payload - 8) payload) 5 8 True of
             None \<Rightarrow> None
           | Some (Inl e) \<Rightarrow> Some (Inl e)
           | Some (Inr convertedBits) \<Rightarrow>
               (case convertedBits of
                  [] \<Rightarrow> Some (Inl InvalidVersionByte)
                | versionByte # hash \<Rightarrow>
                    (if getHashSize versionByte \<noteq> int (length hash) * 8
                     then Some (Inl HashSizeMismatch)
                     else (case getType versionByte of
                             Inl e \<Rightarrow> Some (Inl e)
                           | Inr type' \<Rightarrow>
                               Some (Inr \<lparr>scriptHash = map word_of_int hash,
                                          type = type'\<rparr>))))))"

subsection \<open>The reference checksum of the specification\<close>

text \<open>
  The checksum as section 4.3 of the specification words it, for comparison with
  \<open>polymod\<close>: the top five bits of the 40-bit checksum are taken, the checksum
  is masked to 35 bits, shifted left by five bits and combined with the symbol, and
  each generator whose bit of \<open>topBits\<close> is set is combined into it.
\<close>

definition polymod_spec_step :: "int \<Rightarrow> int \<Rightarrow> int" where
  "polymod_spec_step checksum symbol =
     (let topBits = drop_bit 35 checksum;
          masked = checksum AND 0x07ffffffff;
          shifted = push_bit 5 masked XOR symbol
      in shifted
           XOR (if bit topBits 0 then 0x98f2bc8e61 else 0)
           XOR (if bit topBits 1 then 0x79b76d99e2 else 0)
           XOR (if bit topBits 2 then 0xf33e5fb3c4 else 0)
           XOR (if bit topBits 3 then 0xae2eabe2a8 else 0)
           XOR (if bit topBits 4 then 0x1e4f43e470 else 0))"

definition polymod_spec :: "int list \<Rightarrow> int" where
  "polymod_spec symbols = foldl polymod_spec_step 1 symbols XOR 1"

subsection \<open>Digit lists\<close>

text \<open>
  Two notions for stating what \<open>convertBits\<close> computes: the number a list of
  \<open>w\<close>-bit digits denotes, most significant digit first, and the lists whose
  elements all fit in \<open>w\<close> bits.
\<close>

definition digits_val :: "nat \<Rightarrow> int list \<Rightarrow> int" where
  "digits_val w ds = foldl (\<lambda>a d. a * 2 ^ w + d) 0 ds"

definition symbols_ok :: "nat \<Rightarrow> int list \<Rightarrow> bool" where
  "symbols_ok w ds = list_all (\<lambda>d. 0 \<le> d \<and> d < 2 ^ w) ds"

subsection \<open>The version byte of the specification\<close>

text \<open>
  Section 4.4 of the specification, for comparison with \<open>getHashSizeBits\<close> and
  \<open>getTypeBits\<close>: the fixed table from bit lengths to size codes, and the type
  bits.
\<close>

definition sizeCodeTable :: "(int \<times> int) list" where
  "sizeCodeTable =
     [(160, 0), (192, 1), (224, 2), (256, 3), (320, 4), (384, 5), (448, 6), (512, 7)]"

fun typeBits_spec :: "CashaddrTypeEnum \<Rightarrow> int" where
  "typeBits_spec pubkeyhash = 0"
| "typeBits_spec scripthash = 8"

section \<open>Errors of the parts\<close>

lemma base32_decode_error: "base32_decode s = Inl e \<Longrightarrow> e = InvalidCharacter"
  by (induction s arbitrary: e) (auto split: option.splits sum.splits)

lemma convertLoop_error:
  "convertLoop data from to m st = Some (Inl e) \<Longrightarrow> e = InvalidArgument"
proof (induction data arbitrary: st)
  case Nil
  then show ?case by simp
next
  case (Cons v data)
  obtain a b r where st: "st = (a, b, r)" by (cases st)
  from Cons.prems show ?case
    unfolding st
    by (auto simp: Let_def split: if_splits option.splits dest: Cons.IH)
qed

lemma convertBits_error:
  "convertBits data from to strict = Some (Inl e) \<Longrightarrow> e = InvalidArgument \<or> e = InvalidPadding"
  unfolding convertBits_def Let_def
  by (auto split: option.splits sum.splits if_splits dest: convertLoop_error)

lemma getType_error: "getType v = Inl e \<Longrightarrow> e = InvalidAddressType"
  by (auto simp: getType_def Let_def split: if_splits)

lemma resolvePrefix_MixedCase:
  "resolvePrefix address ps = Inl MixedCase \<longleftrightarrow> \<not> hasSingleCase address"
  unfolding resolvePrefix_def Let_def
  by (auto split: if_splits sum.splits option.splits prod.splits dest: base32_decode_error)

section \<open>Case mappings\<close>

lemma lowerChar_idem: "lowerChar (lowerChar c) = lowerChar c"
  unfolding lowerChar_def Let_def by simp

lemma lowerChar_colon: "lowerChar c = CHR '':'' \<longleftrightarrow> c = CHR '':''"
  unfolding lowerChar_def Let_def by (auto simp add: char_of_eq_iff take_bit_eq_mod)

lemma lowerChar_colon_eq: "lowerChar CHR '':'' = CHR '':''"
  by (simp add: lowerChar_colon)

text \<open>
  Equations for evaluating the case mappings on a character given by its bits: on the
  ranges of the letters, adding 32 sets bit 5 and subtracting 32 clears it.
\<close>

lemma lowerChar_Char [code]:
  "lowerChar (Char b0 b1 b2 b3 b4 b5 b6 b7) =
     (if \<not> b5 \<and> b6 \<and> (of_char (Char b0 b1 b2 b3 b4 b5 b6 b7) :: nat) \<notin> {64, 91, 92, 93, 94, 95, 215, 223}
      then Char b0 b1 b2 b3 b4 True b6 b7
      else Char b0 b1 b2 b3 b4 b5 b6 b7)"
  by (cases b0; cases b1; cases b2; cases b3; cases b4; cases b5; cases b6; cases b7;
      simp add: lowerChar_def Let_def char_of_eq_iff take_bit_eq_mod)

lemma upperChar_Char [code]:
  "upperChar (Char b0 b1 b2 b3 b4 b5 b6 b7) =
     (let n = (of_char (Char b0 b1 b2 b3 b4 b5 b6 b7) :: nat)
      in if n = 223 then Some ''SS''
         else if n = 181 \<or> n = 255 then None
         else if b5 \<and> b6 \<and> n \<notin> {96, 123, 124, 125, 126, 127, 247}
         then Some [Char b0 b1 b2 b3 b4 False b6 b7]
         else Some [Char b0 b1 b2 b3 b4 b5 b6 b7])"
  by (cases b0; cases b1; cases b2; cases b3; cases b4; cases b5; cases b6; cases b7;
      simp add: upperChar_def Let_def char_of_eq_iff take_bit_eq_mod)

lemma toLowerCase_idem: "toLowerCase (toLowerCase s) = toLowerCase s"
  by (simp add: toLowerCase_def lowerChar_idem)

text \<open>
  On ASCII the uppercase form exists, is its own uppercase form, and has the lowercase
  form of the original.
\<close>

lemma upperChar_ascii:
  assumes "(of_char c :: nat) < 128"
  shows "\<exists>d. upperChar c = Some [d] \<and> lowerChar d = lowerChar c \<and> upperChar d = Some [d]
            \<and> (of_char d :: nat) < 128"
proof (cases "97 \<le> (of_char c :: nat) \<and> (of_char c :: nat) \<le> 122")
  case True
  define n where "n = (of_char c :: nat)"
  define m where "m = n - 32"
  define d where "d = char_of m"
  from True have n: "97 \<le> n" "n \<le> 122"
    by (simp_all add: n_def)
  then have m: "65 \<le> m" "m \<le> 90" "m + 32 = n" "m mod 256 = m"
    by (simp_all add: m_def)
  have c: "char_of n = c"
    by (simp add: n_def)
  have d: "(of_char d :: nat) = m"
    by (simp add: d_def m(4))
  from m(1,2) have "lowerChar d = char_of (m + 32)"
    by (simp add: lowerChar_def Let_def d)
  also have "\<dots> = c"
    by (simp only: m(3) c)
  also from n have "c = lowerChar c"
    by (simp add: lowerChar_def Let_def n_def [symmetric])
  finally have l: "lowerChar d = lowerChar c" .
  from m(1,2) have u: "upperChar d = Some [d]"
    by (simp add: upperChar_def Let_def d)
  from n have "upperChar c = Some [d]"
    by (simp add: upperChar_def Let_def n_def [symmetric] d_def m_def)
  with l u d m(2) show ?thesis
    by auto
next
  case False
  with assms have "upperChar c = Some [c]"
    by (auto simp add: upperChar_def Let_def)
  with assms show ?thesis
    by auto
qed

lemma toUpperCase_ascii:
  "ascii s \<Longrightarrow> \<exists>u. toUpperCase s = Some u \<and> toLowerCase u = toLowerCase s
                      \<and> toUpperCase u = Some u \<and> ascii u"
proof (induction s)
  case Nil
  then show ?case by (simp add: toLowerCase_def ascii_def)
next
  case (Cons c s)
  then have c: "(of_char c :: nat) < 128" and s: "ascii s"
    by (simp_all add: ascii_def)
  from upperChar_ascii [OF c] obtain d where d: "upperChar c = Some [d]"
    "lowerChar d = lowerChar c" "upperChar d = Some [d]" "(of_char d :: nat) < 128"
    by blast
  from Cons.IH [OF s] obtain u where u: "toUpperCase s = Some u" "toLowerCase u = toLowerCase s"
    "toUpperCase u = Some u" "ascii u"
    by blast
  from d u have "toUpperCase (c # s) = Some (d # u) \<and> toLowerCase (d # u) = toLowerCase (c # s)
                      \<and> toUpperCase (d # u) = Some (d # u) \<and> ascii (d # u)"
    by (simp add: toLowerCase_def ascii_def)
  then show ?case
    by blast
qed

lemma resolvePrefix_same_lower:
  assumes "hasSingleCase a" and "hasSingleCase b" and "toLowerCase a = toLowerCase b"
  shows "resolvePrefix a ps = resolvePrefix b ps"
  using assms unfolding resolvePrefix_def Let_def by simp

section \<open>Rejection of mixed case\<close>

text \<open>
  C7: for every input string and every list of candidate prefixes, the decoder fails
  with \<open>MixedCase\<close> if and only if the string equals neither its lowercase form nor
  its uppercase form. No later step of the decoder yields this error and no earlier
  step yields another: the test comes first.
\<close>

theorem C7_mixed_case:
  "cashAddressToHash address cashAddrPrefixes = Some (Inl MixedCase)
     \<longleftrightarrow> \<not> (address = toLowerCase address \<or> Some address = toUpperCase address)"
proof -
  have "cashAddressToHash address cashAddrPrefixes = Some (Inl MixedCase)
          \<longleftrightarrow> resolvePrefix address cashAddrPrefixes = Inl MixedCase"
    unfolding cashAddressToHash_def
    by (auto split: sum.splits option.splits list.splits if_splits prod.splits
             dest: convertBits_error getType_error)
  then show ?thesis
    by (simp add: resolvePrefix_MixedCase hasSingleCase_def Let_def)
qed

theorem C7_mixed_case_witness:
  "cashAddressToHash ''bChTest:q'' [''bchtest''] = Some (Inl MixedCase)
   \<and> cashAddressToHash ''BCHTEST:Q'' [''bchtest''] \<noteq> Some (Inl MixedCase)
   \<and> cashAddressToHash [CHR 0xC0, CHR ''q''] [''bchtest''] = Some (Inl MixedCase)
   \<and> cashAddressToHash [CHR 0xC0, CHR ''Q''] [''bchtest''] \<noteq> Some (Inl MixedCase)"
proof -
  have l1: "''bChTest:q'' \<noteq> toLowerCase ''bChTest:q''" by code_simp
  have u1: "Some ''bChTest:q'' \<noteq> toUpperCase ''bChTest:q''" by code_simp
  have u2: "Some ''BCHTEST:Q'' = toUpperCase ''BCHTEST:Q''" by code_simp
  have l3: "[CHR 0xC0, CHR ''q''] \<noteq> toLowerCase [CHR 0xC0, CHR ''q'']" by code_simp
  have u3: "Some [CHR 0xC0, CHR ''q''] \<noteq> toUpperCase [CHR 0xC0, CHR ''q'']" by code_simp
  have u4: "Some [CHR 0xC0, CHR ''Q''] = toUpperCase [CHR 0xC0, CHR ''Q'']" by code_simp
  from C7_mixed_case [of "''bChTest:q''" "[''bchtest'']"]
       C7_mixed_case [of "''BCHTEST:Q''" "[''bchtest'']"]
       C7_mixed_case [of "[CHR 0xC0, CHR ''q'']" "[''bchtest'']"]
       C7_mixed_case [of "[CHR 0xC0, CHR ''Q'']" "[''bchtest'']"]
       l1 u1 u2 l3 u3 u4
  show ?thesis
    by simp
qed

section \<open>The checksum against its reference\<close>

lemma shrn_and_one: "(drop_bit i (t::int) AND 1 = 1) = bit t i"
  by (simp add: and_one_eq bit_iff_odd_drop_bit mod_2_eq_odd)

lemma generatorLoop_Cons:
  "generatorLoop t (i # is) c = generatorLoop t is (c XOR (if bit t i then GENERATOR ! i else 0))"
  by (simp add: Let_def BN_and_def BN_shrn_def BN_xor_def BN_eqn_def shrn_and_one)

lemma generatorLoop_all:
  "generatorLoop t [0..<length GENERATOR] c =
     c XOR (if bit t 0 then 0x98f2bc8e61 else 0)
       XOR (if bit t 1 then 0x79b76d99e2 else 0)
       XOR (if bit t 2 then 0xf33e5fb3c4 else 0)
       XOR (if bit t 3 then 0xae2eabe2a8 else 0)
       XOR (if bit t 4 then 0x1e4f43e470 else 0)"
proof -
  have len: "[0..<length GENERATOR] = [0, 1, 2, 3, 4]"
    by (simp add: GENERATOR_def upt_rec)
  have g: "GENERATOR ! 0 = 0x98f2bc8e61" "GENERATOR ! 1 = 0x79b76d99e2"
    "GENERATOR ! 2 = 0xf33e5fb3c4" "GENERATOR ! 3 = 0xae2eabe2a8" "GENERATOR ! 4 = 0x1e4f43e470"
    by (simp_all add: GENERATOR_def)
  show ?thesis
    unfolding len generatorLoop_Cons generatorLoop.simps(1) g
    by (simp only: xor.assoc)
qed

lemma polymodStep_eq: "polymodStep c v = polymod_spec_step c v"
  unfolding polymodStep_def polymod_spec_step_def Let_def generatorLoop_all
    BN_and_def BN_shrn_def BN_shln_def BN_xor_def ..

lemma polymod_eq: "polymod data = polymod_spec data"
proof -
  have "polymodStep = polymod_spec_step"
    by (intro ext) (rule polymodStep_eq)
  then show ?thesis
    by (simp add: polymod_def polymod_spec_def BN_xor_def)
qed

text \<open>
  C3: for every sequence of 5-bit symbols, \<open>polymod\<close> (the loops of the source over
  the big-integer helper) computes the reference checksum of the specification: from
  checksum 1, each symbol takes \<open>topBits = checksum >> 35\<close>, masks the checksum with
  \<open>0x07ffffffff\<close>, shifts it left by 5, combines the symbol and then the generators
  \<open>0x98f2bc8e61\<close>, \<open>0x79b76d99e2\<close>, \<open>0xf33e5fb3c4\<close>, \<open>0xae2eabe2a8\<close>,
  \<open>0x1e4f43e470\<close> selected by bits 0 to 4 of \<open>topBits\<close>; the result is the final
  checksum XOR 1.
\<close>

theorem C3_polymod_reference:
  "\<forall>v\<in>set data. 0 \<le> v \<and> v < 32 \<Longrightarrow> polymod data = polymod_spec data"
  by (rule polymod_eq)

theorem C3_polymod_reference_witness:
  "polymod [2, 9, 20] = polymod_spec [2, 9, 20] \<and> polymod_spec [2, 9, 20] = 35125"
  using C3_polymod_reference [of "[2, 9, 20]"]
  by (simp add: polymod_spec_def polymod_spec_step_def)

section \<open>Case-insensitive decoding\<close>

text \<open>
  C8 as stated fails outside ASCII. The address below has the prefix U+00DF (sharp s)
  and a valid checksum; it equals its lowercase form and decodes. Its uppercase form
  starts with \<open>SS\<close>, whose lowercase form \<open>ss\<close> is another checksum salt, and is
  rejected.
\<close>

theorem C8_case_insensitive_counterexample:
  "hasSingleCase (CHR 0xDF # '':qqqqqqqqqqqqqqqqqqqqqqqqqqqqqqqqqqj9zgwf24'')
   \<and> cashAddressToHash (CHR 0xDF # '':qqqqqqqqqqqqqqqqqqqqqqqqqqqqqqqqqqj9zgwf24'') []
       = Some (Inr \<lparr>scriptHash = replicate 20 0, type = pubkeyhash\<rparr>)
   \<and> toLowerCase (CHR 0xDF # '':qqqqqqqqqqqqqqqqqqqqqqqqqqqqqqqqqqj9zgwf24'')
       = CHR 0xDF # '':qqqqqqqqqqqqqqqqqqqqqqqqqqqqqqqqqqj9zgwf24''
   \<and> toUpperCase (CHR 0xDF # '':qqqqqqqqqqqqqqqqqqqqqqqqqqqqqqqqqqj9zgwf24'')
       = Some ''SS:QQQQQQQQQQQQQQQQQQQQQQQQQQQQQQQQQQJ9ZGWF24''
   \<and> cashAddressToHash ''SS:QQQQQQQQQQQQQQQQQQQQQQQQQQQQQQQQQQJ9ZGWF24'' []
       = Some (Inl InvalidChecksum)"
  by code_simp

text \<open>
  C8, amended: for every single-case ASCII address string that decodes successfully,
  its all-uppercase form and its all-lowercase form decode to exactly the same hash
  and type.
\<close>

theorem C8_case_insensitive:
  assumes "ascii address" and "hasSingleCase address"
    and "cashAddressToHash address cashAddrPrefixes = Some (Inr info)"
  shows "\<exists>upperCase. toUpperCase address = Some upperCase
           \<and> cashAddressToHash upperCase cashAddrPrefixes = Some (Inr info)
           \<and> cashAddressToHash (toLowerCase address) cashAddrPrefixes = Some (Inr info)"
proof -
  from toUpperCase_ascii [OF assms(1)] obtain u where u: "toUpperCase address = Some u"
    "toLowerCase u = toLowerCase address" "toUpperCase u = Some u"
    by blast
  from u(3) have su: "hasSingleCase u"
    by (simp add: hasSingleCase_def Let_def)
  have sl: "hasSingleCase (toLowerCase address)"
    by (simp add: hasSingleCase_def Let_def toLowerCase_idem)
  have "resolvePrefix u cashAddrPrefixes = resolvePrefix address cashAddrPrefixes"
    using su assms(2) u(2) by (rule resolvePrefix_same_lower)
  then have du: "cashAddressToHash u cashAddrPrefixes = cashAddressToHash address cashAddrPrefixes"
    by (simp add: cashAddressToHash_def)
  have "resolvePrefix (toLowerCase address) cashAddrPrefixes
          = resolvePrefix address cashAddrPrefixes"
    using sl assms(2) toLowerCase_idem by (rule resolvePrefix_same_lower)
  then have dl: "cashAddressToHash (toLowerCase address) cashAddrPrefixes
                   = cashAddressToHash address cashAddrPrefixes"
    by (simp add: cashAddressToHash_def)
  from u(1) du dl assms(3) show ?thesis
    by simp
qed

theorem C8_case_insensitive_witness:
  "cashAddressToHash ''BITCOINCASH:QQQQQQQQQQQQQQQQQQQQQQQQQQQQQQQQQQFNHKS603'' [''bitcoincash'']
     = Some (Inr \<lparr>scriptHash = replicate 20 0, type = pubkeyhash\<rparr>)
   \<and> cashAddressToHash ''bitcoincash:qqqqqqqqqqqqqqqqqqqqqqqqqqqqqqqqqqfnhks603'' [''bitcoincash'']
     = Some (Inr \<lparr>scriptHash = replicate 20 0, type = pubkeyhash\<rparr>)"
proof -
  let ?a = "''bitcoincash:qqqqqqqqqqqqqqqqqqqqqqqqqqqqqqqqqqfnhks603''"
  have a: "ascii ?a" by code_simp
  have s: "hasSingleCase ?a" by code_simp
  have d: "cashAddressToHash ?a [''bitcoincash'']
             = Some (Inr \<lparr>scriptHash = replicate 20 0, type = pubkeyhash\<rparr>)"
    by code_simp
  have u: "toUpperCase ?a = Some ''BITCOINCASH:QQQQQQQQQQQQQQQQQQQQQQQQQQQQQQQQQQFNHKS603''"
    by code_simp
  have l: "toLowerCase ?a = ?a" by code_simp
  from C8_case_insensitive [OF a s d] show ?thesis
    unfolding u l by simp
qed

section \<open>The prefix as checksum salt\<close>

lemma ToInt32_small: "- (2 ^ 31) \<le> x \<Longrightarrow> x < 2 ^ 31 \<Longrightarrow> ToInt32 x = x"
  unfolding ToInt32_def by (rule signed_take_bit_int_eq_self) simp_all

lemma and_31: "(x::int) AND 31 = x mod 32"
  using take_bit_eq_mask [of 5 x] by (simp add: take_bit_eq_mod mask_eq_exp_minus_1)

lemma js_and_char: "js_and (of_char c) 31 = (of_char c :: int) mod 32"
proof -
  have "(of_char c :: int) = int (of_char c)" by (simp only: of_nat_of_char)
  moreover have "(of_char c :: nat) < 256" by simp
  ultimately have "0 \<le> (of_char c :: int)" "(of_char c :: int) < 256"
    by linarith+
  then show ?thesis
    by (simp add: js_and_def ToInt32_small and_31)
qed

lemma prefixToArray_low_bits:
  "list_all2 (\<lambda>c d. (of_char c :: int) mod 32 = of_char d mod 32) p q
     \<Longrightarrow> prefixToArray p = prefixToArray q"
  unfolding prefixToArray_def
  by (induction rule: list_all2_induct) (simp_all add: js_and_char)

text \<open>
  C10: the checksum salt uses the character codes of the prefix modulo 32 only. For
  every pair of prefixes of equal length whose characters agree modulo 32, position
  by position, \<open>validChecksum\<close> gives the same verdict on every payload, and
  \<open>hashToCashAddress\<close> yields the same encoded payload and checksum.
\<close>

theorem C10_prefix_low_bits:
  assumes "list_all2 (\<lambda>c d. (of_char c :: int) mod 32 = of_char d mod 32) p q"
  shows "length p = length q
       \<and> validChecksum p payload = validChecksum q payload
       \<and> hashToCashAddress hashBuffer type' p False = hashToCashAddress hashBuffer type' q False"
proof -
  from assms have "prefixToArray p = prefixToArray q"
    by (rule prefixToArray_low_bits)
  then show ?thesis
    using assms
    by (simp add: validChecksum_def hashToCashAddress_def list_all2_lengthD Let_def
             split: sum.splits option.splits)
qed

theorem C10_prefix_low_bits_witness:
  "validChecksum ''bitcoincash'' [0, 1, 2] = validChecksum ''BITCOINCASH'' [0, 1, 2]
   \<and> hashToCashAddress [1, 2] scripthash ''bitcoincash'' False
     = hashToCashAddress [1, 2] scripthash ''BITCOINCASH'' False"
  using C10_prefix_low_bits [of "''bitcoincash''" "''BITCOINCASH''" "[0, 1, 2]" "[1, 2]" scripthash]
  by simp

section \<open>Bit regrouping\<close>

text \<open>
  \<open>convertBits\<close> regroups the bits of its input: the output digits denote the same
  number as the input digits, shifted left by the padding. The 32-bit accumulator
  loses its upper bits, which no output digit reads as long as the two widths sum to
  at most 32.
\<close>

lemma take_bit_ToInt32: "n \<le> 32 \<Longrightarrow> take_bit n (ToInt32 x) = take_bit n x"
  unfolding ToInt32_def by (simp add: take_bit_signed_take_bit)

lemma js_mask: 
  assumes "t < 32" shows "ToInt32 (js_shl 1 (int t) - 1) = mask t"
proof -
  have "(2::int) ^ t \<le> 2 ^ 31"
    using assms by (intro power_increasing) simp_all
  moreover have "0 < (2::int) ^ t"
    by simp
  ultimately have r: "- (2 ^ 31) \<le> (2::int) ^ t - 1" "(2::int) ^ t - 1 < 2 ^ 31"
    by linarith+
  have "js_shl 1 (int t) = ToInt32 (2 ^ t)"
    using assms by (simp add: js_shl_def ToInt32_small)
  then have "ToInt32 (js_shl 1 (int t) - 1) = ToInt32 (ToInt32 (2 ^ t) - ToInt32 1)"
    by (simp add: ToInt32_small)
  also have "\<dots> = ToInt32 (2 ^ t - 1)"
    unfolding ToInt32_def by (rule signed_take_bit_diff)
  also have "\<dots> = 2 ^ t - 1"
    using r by (rule ToInt32_small)
  finally show ?thesis
    by (simp add: mask_eq_exp_minus_1)
qed

lemma take_bit_split:
  assumes "t \<le> b"
  shows "take_bit b (a::int) = take_bit t (drop_bit (b - t) a) * 2 ^ (b - t) + take_bit (b - t) a"
proof -
  have "push_bit (b - t) (drop_bit (b - t) (take_bit b a)) + take_bit (b - t) (take_bit b a)
          = take_bit b a"
    by (rule bits_ident)
  moreover have "drop_bit (b - t) (take_bit b a) = take_bit t (drop_bit (b - t) a)"
    using assms by (simp add: drop_bit_take_bit)
  moreover have "take_bit (b - t) (take_bit b a) = take_bit (b - t) a"
    by simp
  ultimately show ?thesis
    by (simp add: push_bit_eq_mult)
qed

lemma js_pushed_symbol:
  assumes "t < 32" and "k < 32" and "k + t \<le> 32"
  shows "js_and (js_shr a (int k)) (js_shl 1 (int t) - 1) = take_bit t (drop_bit k a)"
proof -
  have k: "nat (int k mod 32) = k"
    using assms by simp
  have "js_and (js_shr a (int k)) (js_shl 1 (int t) - 1)
          = take_bit t (ToInt32 (drop_bit k (ToInt32 a)))"
    using assms(1) by (simp add: js_and_def js_shr_def k js_mask take_bit_eq_mask)
  also have "\<dots> = take_bit t (drop_bit k (ToInt32 a))"
    using assms(1) by (simp add: take_bit_ToInt32)
  also have "\<dots> = drop_bit k (take_bit (t + k) (ToInt32 a))"
    by (simp add: take_bit_drop_bit)
  also have "\<dots> = drop_bit k (take_bit (t + k) a)"
    using assms(3) by (simp add: take_bit_ToInt32 add.commute)
  also have "\<dots> = take_bit t (drop_bit k a)"
    by (simp add: take_bit_drop_bit)
  finally show ?thesis .
qed

lemma js_accumulate:
  assumes "0 \<le> v" and "v < 2 ^ f" and "b + f \<le> 32" and "f < 32"
  shows "take_bit (b + f) (js_or (js_shl a (int f)) v) = take_bit b a * 2 ^ f + v"
proof -
  have f: "nat (int f mod 32) = f"
    using assms by simp
  have v: "take_bit f v = v"
    using assms by (simp add: take_bit_int_eq_self)
  have "(2::int) ^ f \<le> 2 ^ (b + f)"
    by (intro power_increasing) simp_all
  with assms(2) have "v < 2 ^ (b + f)"
    by (rule order.strict_trans2)
  with assms(1) have v': "take_bit (b + f) v = v"
    by (simp add: take_bit_int_eq_self)
  have "take_bit (b + f) (js_or (js_shl a (int f)) v)
          = take_bit (b + f) (push_bit f (ToInt32 a)) OR take_bit (b + f) v"
    using assms(3) by (simp add: js_or_def js_shl_def f take_bit_ToInt32 take_bit_or)
  also have "\<dots> = push_bit f (take_bit b a) OR take_bit f v"
    using assms(3) by (simp add: take_bit_push_bit take_bit_ToInt32 v v')
  also have "\<dots> = concat_bit f v (take_bit b a)"
    by (simp add: concat_bit_def or.commute)
  also have "\<dots> = take_bit b a * 2 ^ f + v"
    by (simp add: concat_bit_eq v push_bit_eq_mult)
  finally show ?thesis .
qed

lemma js_value_fits:
  assumes "0 \<le> v" and "v < 2 ^ f" and "f < 32"
  shows "js_shr v (int f) = 0"
proof -
  have "(2::int) ^ f \<le> 2 ^ 31"
    using assms by (intro power_increasing) simp_all
  with assms have "ToInt32 v = v"
    by (intro ToInt32_small) simp_all
  moreover have "nat (int f mod 32) = f"
    using assms by simp
  ultimately show ?thesis
    using assms by (simp add: js_shr_def drop_bit_eq_div)
qed

lemma digits_val_Nil: "digits_val w [] = 0"
  by (simp add: digits_val_def)

lemma digits_val_snoc: "digits_val w (ds @ [d]) = digits_val w ds * 2 ^ w + d"
  by (simp add: digits_val_def)

lemma digits_val_append:
  "digits_val w (xs @ ys) = digits_val w xs * 2 ^ (w * length ys) + digits_val w ys"
proof (induction ys rule: rev_induct)
  case Nil
  then show ?case by (simp add: digits_val_Nil)
next
  case (snoc y ys)
  have "digits_val w (xs @ ys @ [y]) = digits_val w ((xs @ ys) @ [y])"
    by simp
  also have "\<dots> = digits_val w (xs @ ys) * 2 ^ w + y"
    by (rule digits_val_snoc)
  finally show ?case
    by (simp add: snoc.IH digits_val_snoc algebra_simps power_add)
qed

lemma digits_val_Cons: "digits_val w (d # ds) = d * 2 ^ (w * length ds) + digits_val w ds"
  using digits_val_append [of w "[d]" ds] digits_val_snoc [of w "[]" d]
  by (simp add: digits_val_Nil)

lemma symbols_ok_append: "symbols_ok w (xs @ ys) \<longleftrightarrow> symbols_ok w xs \<and> symbols_ok w ys"
  by (simp add: symbols_ok_def)

lemma digits_val_inj:
  "length xs = length ys \<Longrightarrow> symbols_ok w xs \<Longrightarrow> symbols_ok w ys \<Longrightarrow>
     digits_val w xs = digits_val w ys \<Longrightarrow> xs = ys"
proof (induction xs arbitrary: ys rule: rev_induct)
  case Nil
  then show ?case by simp
next
  case (snoc x xs)
  from snoc.prems(1) obtain y ys' where ys: "ys = ys' @ [y]"
    by (cases ys rule: rev_cases) simp_all
  from snoc.prems ys have rx: "0 \<le> x" "x < 2 ^ w" and ry: "0 \<le> y" "y < 2 ^ w"
    and ok: "symbols_ok w xs" "symbols_ok w ys'" and len: "length xs = length ys'"
    by (simp_all add: symbols_ok_def)
  from snoc.prems(4) ys
  have eq: "digits_val w xs * 2 ^ w + x = digits_val w ys' * 2 ^ w + y"
    by (simp add: digits_val_snoc)
  from eq have "(digits_val w xs * 2 ^ w + x) mod 2 ^ w = (digits_val w ys' * 2 ^ w + y) mod 2 ^ w"
    by simp
  with rx ry have xy: "x = y"
    by simp
  with eq have "digits_val w xs = digits_val w ys'"
    by simp
  with len ok have "xs = ys'"
    by (intro snoc.IH)
  with xy ys show ?case by simp
qed

lemma pushLoop_inv:
  assumes "0 < t" and "t < 32" and "b \<le> 32"
  shows "\<exists>r'. pushLoop a (int t) (js_shl 1 (int t) - 1) (int b) r = Some (int (b mod t), r @ r')
            \<and> length r' = b div t \<and> symbols_ok t r'
            \<and> digits_val t (r @ r') * 2 ^ (b mod t) + take_bit (b mod t) a
                = digits_val t r * 2 ^ b + take_bit b a"
  using assms(3)
proof (induction b arbitrary: r rule: less_induct)
  case (less b)
  show ?case
  proof (cases "b < t")
    case True
    then have "\<not> int t \<le> int b"
      by simp
    then have "pushLoop a (int t) (js_shl 1 (int t) - 1) (int b) r = Some (int b, r)"
      by (subst pushLoop.simps) (simp only: if_False)
    with True show ?thesis
      by (simp add: symbols_ok_def)
  next
    case False
    define d where "d = take_bit t (drop_bit (b - t) a)"
    from False assms(1) less.prems have k: "b - t < 32" "b - t + t \<le> 32" "b - t < b" "b - t \<le> 32"
      by simp_all
    have sym: "js_and (js_shr a (int (b - t))) (js_shl 1 (int t) - 1) = d"
      unfolding d_def using assms(2) k(1,2) by (rule js_pushed_symbol)
    from False have sub: "int b - int t = int (b - t)"
      by simp
    from False have ge: "int t \<le> int b"
      by simp
    have unf: "pushLoop a (int t) (js_shl 1 (int t) - 1) (int b) r
                 = pushLoop a (int t) (js_shl 1 (int t) - 1) (int (b - t)) (r @ [d])"
      by (subst pushLoop.simps) (simp only: ge if_True sub sym)
    from less.IH [OF k(3) k(4), of "r @ [d]"]
    obtain r'' where r'':
      "pushLoop a (int t) (js_shl 1 (int t) - 1) (int (b - t)) (r @ [d])
         = Some (int ((b - t) mod t), (r @ [d]) @ r'')"
      "length r'' = (b - t) div t" "symbols_ok t r''"
      "digits_val t ((r @ [d]) @ r'') * 2 ^ ((b - t) mod t) + take_bit ((b - t) mod t) a
         = digits_val t (r @ [d]) * 2 ^ (b - t) + take_bit (b - t) a"
      by blast
    from False have m: "(b - t) mod t = b mod t" and dv: "b div t = Suc ((b - t) div t)"
      by (simp_all add: le_mod_geq le_div_geq assms(1))
    have dok: "0 \<le> d \<and> d < 2 ^ t"
      by (simp add: d_def)
    from False have pw: "(2::int) ^ t * 2 ^ (b - t) = 2 ^ b"
      by (simp flip: power_add)
    have "digits_val t (r @ [d]) * 2 ^ (b - t) + take_bit (b - t) a
            = digits_val t r * (2 ^ t * 2 ^ (b - t)) + (d * 2 ^ (b - t) + take_bit (b - t) a)"
      by (simp add: digits_val_snoc algebra_simps)
    also have "\<dots> = digits_val t r * 2 ^ b + take_bit b a"
      using False by (simp add: pw d_def take_bit_split [of t b a])
    finally have val: "digits_val t (r @ [d]) * 2 ^ (b - t) + take_bit (b - t) a
            = digits_val t r * 2 ^ b + take_bit b a" .
    show ?thesis
      apply (rule exI [of _ "d # r''"])
      using unf r'' m dv dok val
      by (simp add: symbols_ok_def)
  qed
qed

lemma convertLoop_inv:
  assumes "0 < f" and "0 < t" and "f + t \<le> 32"
  shows "symbols_ok f data \<Longrightarrow> b < t \<Longrightarrow> symbols_ok t r \<Longrightarrow>
     \<exists>a' b' r'. convertLoop data (int f) (int t) (js_shl 1 (int t) - 1) (a, int b, r)
                   = Some (Inr (a', int b', r'))
        \<and> b' < t \<and> symbols_ok t r'
        \<and> length r' * t + b' = length r * t + b + length data * f
        \<and> digits_val t r' * 2 ^ b' + take_bit b' a'
            = (digits_val t r * 2 ^ b + take_bit b a) * 2 ^ (f * length data) + digits_val f data"
proof (induction data arbitrary: a b r)
  case Nil
  then show ?case
    by (simp add: digits_val_Nil)
next
  case (Cons v data)
  from assms have t32: "t < 32" and f32: "f < 32"
    by simp_all
  from Cons.prems(1) have v: "0 \<le> v" "v < 2 ^ f" and ok: "symbols_ok f data"
    by (simp_all add: symbols_ok_def)
  define a1 where "a1 = js_or (js_shl a (int f)) v"
  from Cons.prems(2) assms have bf: "b + f \<le> 32"
    by simp
  from pushLoop_inv [OF assms(2) t32 bf, of a1 r]
  obtain r1 where r1:
    "pushLoop a1 (int t) (js_shl 1 (int t) - 1) (int (b + f)) r = Some (int ((b + f) mod t), r @ r1)"
    "length r1 = (b + f) div t" "symbols_ok t r1"
    "digits_val t (r @ r1) * 2 ^ ((b + f) mod t) + take_bit ((b + f) mod t) a1
       = digits_val t r * 2 ^ (b + f) + take_bit (b + f) a1"
    by blast
  have acc: "take_bit (b + f) a1 = take_bit b a * 2 ^ f + v"
    unfolding a1_def using v bf f32 by (rule js_accumulate)
  have fits: "\<not> (v < 0 \<or> js_shr v (int f) \<noteq> 0)"
    using v f32 by (simp add: js_value_fits)
  have bm: "(b + f) mod t < t"
    using assms(2) by simp
  have okr: "symbols_ok t (r @ r1)"
    using Cons.prems(3) r1(3) by (simp add: symbols_ok_append)
  from Cons.IH [OF ok bm okr, of a1]
  obtain a' b' r' where fin:
    "convertLoop data (int f) (int t) (js_shl 1 (int t) - 1) (a1, int ((b + f) mod t), r @ r1)
       = Some (Inr (a', int b', r'))"
    "b' < t" "symbols_ok t r'"
    "length r' * t + b' = length (r @ r1) * t + (b + f) mod t + length data * f"
    "digits_val t r' * 2 ^ b' + take_bit b' a'
       = (digits_val t (r @ r1) * 2 ^ ((b + f) mod t) + take_bit ((b + f) mod t) a1)
           * 2 ^ (f * length data) + digits_val f data"
    by blast
  have step: "convertLoop (v # data) (int f) (int t) (js_shl 1 (int t) - 1) (a, int b, r)
               = Some (Inr (a', int b', r'))"
    using fits r1(1) fin(1) by (simp add: a1_def [symmetric] Let_def)
  have len: "length r' * t + b' = length r * t + b + length (v # data) * f"
  proof -
    have "length r1 * t + (b + f) mod t = b + f"
      by (simp add: r1(2))
    with fin(4) show ?thesis
      by (simp add: algebra_simps)
  qed
  have val: "digits_val t r' * 2 ^ b' + take_bit b' a'
      = (digits_val t r * 2 ^ b + take_bit b a) * 2 ^ (f * length (v # data))
          + digits_val f (v # data)"
  proof -
    have "digits_val t r' * 2 ^ b' + take_bit b' a'
        = (digits_val t r * 2 ^ (b + f) + (take_bit b a * 2 ^ f + v)) * 2 ^ (f * length data)
            + digits_val f data"
      by (simp only: fin(5) r1(4) acc)
    also have "\<dots> = (digits_val t r * 2 ^ b + take_bit b a) * 2 ^ (f * length (v # data))
          + digits_val f (v # data)"
      by (simp add: digits_val_Cons power_add algebra_simps)
    finally show ?thesis .
  qed
  from step fin(2,3) len val show ?case
    by blast
qed

lemma js_padding:
  assumes "t < 32" and "b \<le> t"
  shows "js_and (js_shl a (int t - int b)) (js_shl 1 (int t) - 1) = take_bit b a * 2 ^ (t - b)"
proof -
  from assms have n: "nat ((int t - int b) mod 32) = t - b"
    by (simp add: nat_diff_distrib flip: of_nat_diff)
  have "js_and (js_shl a (int t - int b)) (js_shl 1 (int t) - 1)
          = take_bit t (push_bit (t - b) (ToInt32 a))"
    using assms(1)
    by (simp add: js_and_def js_shl_def [of a] n js_mask take_bit_ToInt32 flip: take_bit_eq_mask)
  also have "\<dots> = push_bit (t - b) (take_bit b a)"
    using assms by (simp add: take_bit_push_bit take_bit_ToInt32)
  finally show ?thesis
    by (simp add: push_bit_eq_mult)
qed

lemma convertLoop_final:
  assumes "0 < f" and "0 < t" and "f + t \<le> 32" and "symbols_ok f data"
  shows "\<exists>a b r. convertLoop data (int f) (int t) (js_shl 1 (int t) - 1) (0, 0, [])
                   = Some (Inr (a, int b, r))
        \<and> b < t \<and> symbols_ok t r
        \<and> length r * t + b = length data * f
        \<and> digits_val t r * 2 ^ b + take_bit b a = digits_val f data"
proof -
  have e: "symbols_ok t []"
    by (simp add: symbols_ok_def)
  from convertLoop_inv [OF assms(1-3) assms(4) assms(2) e, of 0]
  show ?thesis
    by (simp add: digits_val_Nil)
qed

lemma convertBits_nonstrict:
  assumes "0 < f" and "0 < t" and "f + t \<le> 32" and "symbols_ok f data"
  shows "\<exists>out. convertBits data (int f) (int t) False = Some (Inr out)
        \<and> symbols_ok t out
        \<and> length data * f \<le> length out * t \<and> length out * t < length data * f + t
        \<and> digits_val t out = digits_val f data * 2 ^ (length out * t - length data * f)"
proof -
  from convertLoop_final [OF assms]
  obtain a b r where st:
    "convertLoop data (int f) (int t) (js_shl 1 (int t) - 1) (0, 0, []) = Some (Inr (a, int b, r))"
    "b < t" "symbols_ok t r" "length r * t + b = length data * f"
    "digits_val t r * 2 ^ b + take_bit b a = digits_val f data"
    by blast
  from assms have t32: "t < 32"
    by simp
  show ?thesis
  proof (cases "b = 0")
    case True
    with st have "convertBits data (int f) (int t) False = Some (Inr r)"
      by (simp add: convertBits_def Let_def)
    with st True assms(2) show ?thesis
      by simp
  next
    case False
    define p where "p = take_bit b a * 2 ^ (t - b)"
    from st(2) have pad: "js_and (js_shl a (int t - int b)) (js_shl 1 (int t) - 1) = p"
      unfolding p_def by (intro js_padding t32) simp
    from False st(1) have res: "convertBits data (int f) (int t) False = Some (Inr (r @ [p]))"
      by (simp add: convertBits_def Let_def pad)
    have pw: "(2::int) ^ b * 2 ^ (t - b) = 2 ^ t"
      using st(2) by (simp flip: power_add)
    have "take_bit b a < 2 ^ b"
      by simp
    then have "take_bit b a * 2 ^ (t - b) < 2 ^ b * 2 ^ (t - b)"
      by (intro mult_strict_right_mono) simp_all
    then have pok: "0 \<le> p \<and> p < 2 ^ t"
      by (simp add: p_def pw)
    have len: "length (r @ [p]) * t - length data * f = t - b"
      using st(2,4) by (simp add: algebra_simps)
    have "digits_val t (r @ [p]) = digits_val t r * (2 ^ b * 2 ^ (t - b)) + take_bit b a * 2 ^ (t - b)"
      by (simp add: digits_val_snoc p_def pw)
    also have "\<dots> = digits_val f data * 2 ^ (t - b)"
      by (simp add: st(5) [symmetric] algebra_simps)
    finally have val: "digits_val t (r @ [p]) = digits_val f data * 2 ^ (t - b)" .
    from False st(2,4) have "length data * f \<le> length (r @ [p]) * t"
      "length (r @ [p]) * t < length data * f + t"
      by (simp_all add: algebra_simps)
    with res pok st(3) val len show ?thesis
      by (auto simp add: symbols_ok_append symbols_ok_def)
  qed
qed

lemma convertBits_strict:
  assumes "0 < f" and "0 < t" and "f + t \<le> 32" and "symbols_ok f data"
    and "length r * t + b = length data * f" and "b < f" and "b < t" and "symbols_ok t r"
    and "digits_val f data = digits_val t r * 2 ^ b"
  shows "convertBits data (int f) (int t) True = Some (Inr r)"
proof -
  from convertLoop_final [OF assms(1-4)]
  obtain a' b' r' where st:
    "convertLoop data (int f) (int t) (js_shl 1 (int t) - 1) (0, 0, []) = Some (Inr (a', int b', r'))"
    "b' < t" "symbols_ok t r'" "length r' * t + b' = length data * f"
    "digits_val t r' * 2 ^ b' + take_bit b' a' = digits_val f data"
    by blast
  from assms have t32: "t < 32"
    by simp
  from st(4) assms(5) have "(length r' * t + b') mod t = (length r * t + b) mod t"
    by simp
  with st(2) assms(7) have b: "b' = b"
    by simp
  with st(4) assms(5) have "length r' * t + b = length r * t + b"
    by (simp only:)
  then have "length r' * t = length r * t"
    by (simp only: add_right_cancel)
  with assms(2) have len: "length r' = length r"
    by simp
  from st(5) assms(9) b
  have eq: "digits_val t r' * 2 ^ b + take_bit b a' = digits_val t r * 2 ^ b"
    by simp
  then have "(digits_val t r' * 2 ^ b + take_bit b a') mod 2 ^ b = (digits_val t r * 2 ^ b) mod 2 ^ b"
    by simp
  then have z: "take_bit b a' = 0"
    by (simp add: take_bit_eq_mod)
  with eq have "digits_val t r' = digits_val t r"
    by simp
  with len st(3) assms(8) have r: "r' = r"
    by (intro digits_val_inj)
  from st(2) have "js_and (js_shl a' (int t - int b')) (js_shl 1 (int t) - 1)
                     = take_bit b' a' * 2 ^ (t - b')"
    by (intro js_padding t32) simp
  with z b have pad: "js_and (js_shl a' (int t - int b)) (js_shl 1 (int t) - 1) = 0"
    by simp
  from st(1) b r pad assms(6) show ?thesis
    by (simp add: convertBits_def Let_def)
qed

lemma convertBits_roundtrip:
  assumes "0 < t" and "t \<le> f" and "f + t \<le> 32" and "symbols_ok f data"
  shows "\<exists>out. convertBits data (int f) (int t) False = Some (Inr out)
           \<and> symbols_ok t out
           \<and> length data * f \<le> length out * t \<and> length out * t < length data * f + t
           \<and> convertBits out (int t) (int f) True = Some (Inr data)"
proof -
  from assms have f: "0 < f"
    by simp
  from convertBits_nonstrict [OF f assms(1,3,4)]
  obtain out where out:
    "convertBits data (int f) (int t) False = Some (Inr out)" "symbols_ok t out"
    "length data * f \<le> length out * t" "length out * t < length data * f + t"
    "digits_val t out = digits_val f data * 2 ^ (length out * t - length data * f)"
    by blast
  define b where "b = length out * t - length data * f"
  from out(3,4) have b: "length data * f + b = length out * t" "b < t"
    by (simp_all add: b_def)
  from assms(3) have c: "t + f \<le> 32"
    by simp
  from b assms(2) have bf: "b < f"
    by simp
  have "convertBits out (int t) (int f) True = Some (Inr data)"
    using assms(1) f c out(2) b(1) b(2) bf assms(4) out(5) [folded b_def]
    by (rule convertBits_strict)
  with out show ?thesis
    by blast
qed

section \<open>The checksum of an encoded address validates\<close>

text \<open>
  \<open>polymodStep\<close> is linear over exclusive or, and eight 5-bit symbols run from
  checksum 0 spell out the number they denote. So the eight symbols that
  \<open>checksumToArray\<close> extracts cancel the checksum computed over eight zero symbols.
\<close>

lemma polymodStep_unfold:
  "polymodStep c v =
     push_bit 5 (c AND 0x07ffffffff) XOR v
       XOR (if bit (drop_bit 35 c) 0 then 0x98f2bc8e61 else 0)
       XOR (if bit (drop_bit 35 c) 1 then 0x79b76d99e2 else 0)
       XOR (if bit (drop_bit 35 c) 2 then 0xf33e5fb3c4 else 0)
       XOR (if bit (drop_bit 35 c) 3 then 0xae2eabe2a8 else 0)
       XOR (if bit (drop_bit 35 c) 4 then 0x1e4f43e470 else 0)"
  unfolding polymodStep_eq polymod_spec_step_def Let_def
  by (simp only: xor.assoc)

lemma select_xor:
  "(if bit (s XOR t) i then g else 0) = (if bit s i then g else 0) XOR (if bit t i then (g::int) else 0)"
  by (simp add: bit_xor_iff)

lemma polymodStep_linear:
  "polymodStep (a XOR b) (v XOR w) = polymodStep a v XOR polymodStep b w"
  unfolding polymodStep_unfold drop_bit_xor select_xor bit.conj_xor_distrib2 push_bit_xor
  by (simp only: xor.assoc xor.left_commute xor.commute)

lemma polymod_run_linear:
  "foldl polymodStep (a XOR b) ds
     = foldl polymodStep a (replicate (length ds) 0) XOR foldl polymodStep b ds"
proof (induction ds arbitrary: a b)
  case Nil
  then show ?case by simp
next
  case (Cons d ds)
  have "polymodStep (a XOR b) d = polymodStep (a XOR b) (0 XOR d)"
    by simp
  also have "\<dots> = polymodStep a 0 XOR polymodStep b d"
    by (rule polymodStep_linear)
  finally show ?case
    by (simp add: Cons.IH)
qed

lemma xor_range: "0 \<le> x \<Longrightarrow> x < 2 ^ n \<Longrightarrow> 0 \<le> y \<Longrightarrow> y < 2 ^ n \<Longrightarrow> 0 \<le> x XOR y \<and> x XOR y < 2 ^ n"
  for x y :: int
  by (simp add: XOR_upper)

lemma select_range:
  "0 \<le> g \<Longrightarrow> g < 2 ^ 40 \<Longrightarrow> 0 \<le> (if p then g else 0) \<and> (if p then g else (0::int)) < 2 ^ 40"
  by simp

lemma polymodStep_range:
  assumes "0 \<le> v" and "v < 2 ^ 40"
  shows "0 \<le> polymodStep c v \<and> polymodStep c v < 2 ^ 40"
proof -
  let ?g = "\<lambda>i g. if bit (drop_bit 35 c) i then g else (0::int)"
  have m: "0 \<le> c AND 0x07ffffffff" "c AND 0x07ffffffff \<le> 0x07ffffffff"
    by simp_all
  then have p: "0 \<le> push_bit 5 (c AND 0x07ffffffff) \<and> push_bit 5 (c AND 0x07ffffffff) < 2 ^ 40"
    by (simp add: push_bit_eq_mult)
  have g4: "0 \<le> ?g 4 0x1e4f43e470 \<and> ?g 4 0x1e4f43e470 < 2 ^ 40"
    by (rule select_range) simp_all
  have g3: "0 \<le> ?g 3 0xae2eabe2a8 \<and> ?g 3 0xae2eabe2a8 < 2 ^ 40"
    by (rule select_range) simp_all
  have g2: "0 \<le> ?g 2 0xf33e5fb3c4 \<and> ?g 2 0xf33e5fb3c4 < 2 ^ 40"
    by (rule select_range) simp_all
  have g1: "0 \<le> ?g 1 0x79b76d99e2 \<and> ?g 1 0x79b76d99e2 < 2 ^ 40"
    by (rule select_range) simp_all
  have g0: "0 \<le> ?g 0 0x98f2bc8e61 \<and> ?g 0 0x98f2bc8e61 < 2 ^ 40"
    by (rule select_range) simp_all
  note x = xor_range [of _ 40]
  have r3: "0 \<le> ?g 3 0xae2eabe2a8 XOR ?g 4 0x1e4f43e470
          \<and> ?g 3 0xae2eabe2a8 XOR ?g 4 0x1e4f43e470 < 2 ^ 40"
    using g3 g4 by (intro x) simp_all
  have r2: "0 \<le> ?g 2 0xf33e5fb3c4 XOR ?g 3 0xae2eabe2a8 XOR ?g 4 0x1e4f43e470
          \<and> ?g 2 0xf33e5fb3c4 XOR ?g 3 0xae2eabe2a8 XOR ?g 4 0x1e4f43e470 < 2 ^ 40"
    using g2 r3 by (intro x) simp_all
  have r1: "0 \<le> ?g 1 0x79b76d99e2 XOR ?g 2 0xf33e5fb3c4 XOR ?g 3 0xae2eabe2a8 XOR ?g 4 0x1e4f43e470
          \<and> ?g 1 0x79b76d99e2 XOR ?g 2 0xf33e5fb3c4 XOR ?g 3 0xae2eabe2a8 XOR ?g 4 0x1e4f43e470
              < 2 ^ 40"
    using g1 r2 by (intro x) simp_all
  have r0: "0 \<le> ?g 0 0x98f2bc8e61 XOR ?g 1 0x79b76d99e2 XOR ?g 2 0xf33e5fb3c4
                   XOR ?g 3 0xae2eabe2a8 XOR ?g 4 0x1e4f43e470
          \<and> ?g 0 0x98f2bc8e61 XOR ?g 1 0x79b76d99e2 XOR ?g 2 0xf33e5fb3c4
                   XOR ?g 3 0xae2eabe2a8 XOR ?g 4 0x1e4f43e470 < 2 ^ 40"
    using g0 r1 by (intro x) simp_all
  have rv: "0 \<le> v XOR ?g 0 0x98f2bc8e61 XOR ?g 1 0x79b76d99e2 XOR ?g 2 0xf33e5fb3c4
                   XOR ?g 3 0xae2eabe2a8 XOR ?g 4 0x1e4f43e470
          \<and> v XOR ?g 0 0x98f2bc8e61 XOR ?g 1 0x79b76d99e2 XOR ?g 2 0xf33e5fb3c4
                   XOR ?g 3 0xae2eabe2a8 XOR ?g 4 0x1e4f43e470 < 2 ^ 40"
    using assms r0 by (intro x) simp_all
  show ?thesis
    unfolding polymodStep_unfold
    using p rv by (intro x) simp_all
qed

lemma polymodStep_small:
  assumes "0 \<le> c" and "c < 2 ^ 35" and "0 \<le> d" and "d < 2 ^ 5"
  shows "polymodStep c d = c * 2 ^ 5 + d"
proof -
  from assms(1,2) have t: "drop_bit 35 c = 0"
    by (simp add: drop_bit_eq_div)
  from assms(1,2) have "take_bit 35 c = c"
    by (simp add: take_bit_int_eq_self)
  then have m: "c AND 0x07ffffffff = c"
    using take_bit_eq_mask [of 35 c] by (simp add: mask_eq_exp_minus_1)
  from assms(3,4) have d: "take_bit 5 d = d"
    by (simp add: take_bit_int_eq_self)
  have "polymodStep c d = push_bit 5 c XOR d"
    unfolding polymodStep_unfold t m by simp
  also have "\<dots> = push_bit 5 c XOR take_bit 5 d"
    by (simp only: d)
  also have "\<dots> = push_bit 5 c + take_bit 5 d"
    by (rule disjunctive_add_eq_xor [symmetric]) (simp add: bit_eq_iff bit_simps)
  finally show ?thesis
    by (simp add: d push_bit_eq_mult)
qed

lemma digits_val_range:
  "symbols_ok w ds \<Longrightarrow> 0 \<le> digits_val w ds \<and> digits_val w ds < 2 ^ (w * length ds)"
proof (induction ds rule: rev_induct)
  case Nil
  then show ?case by (simp add: digits_val_Nil)
next
  case (snoc d ds)
  then have d: "0 \<le> d" "d < 2 ^ w" and IH: "0 \<le> digits_val w ds" "digits_val w ds < 2 ^ (w * length ds)"
    by (simp_all add: symbols_ok_def)
  from IH(2) have "digits_val w ds + 1 \<le> 2 ^ (w * length ds)"
    by simp
  then have "(digits_val w ds + 1) * 2 ^ w \<le> 2 ^ (w * length ds) * 2 ^ w"
    by (intro mult_right_mono) simp_all
  with d IH(1) show ?case
    by (simp add: digits_val_snoc power_add algebra_simps)
qed

lemma polymod_run_zero:
  "symbols_ok 5 ds \<Longrightarrow> length ds \<le> 8 \<Longrightarrow> foldl polymodStep 0 ds = digits_val 5 ds"
proof (induction ds rule: rev_induct)
  case Nil
  then show ?case by (simp add: digits_val_Nil)
next
  case (snoc d ds)
  then have d: "0 \<le> d" "d < 2 ^ 5" and ok: "symbols_ok 5 ds" and len: "length ds \<le> 7"
    by (simp_all add: symbols_ok_def)
  from digits_val_range [OF ok] have r: "0 \<le> digits_val 5 ds" "digits_val 5 ds < 2 ^ (5 * length ds)"
    by simp_all
  have "(2::int) ^ (5 * length ds) \<le> 2 ^ 35"
    using len by (intro power_increasing) simp_all
  with r(2) have "digits_val 5 ds < 2 ^ 35"
    by (rule order.strict_trans2)
  with r(1) have "polymodStep (digits_val 5 ds) d = digits_val 5 ds * 2 ^ 5 + d"
    using d by (intro polymodStep_small)
  with snoc.IH ok len show ?case
    by (simp add: digits_val_snoc)
qed

lemma checksumLoop_append: "checksumLoop n c (r @ s) = r @ checksumLoop n c s"
  by (induction n arbitrary: c s) simp_all

lemma checksumLoop_val:
  "length (checksumLoop n c []) = n \<and> symbols_ok 5 (rev (checksumLoop n c []))
     \<and> digits_val 5 (rev (checksumLoop n c [])) = take_bit (5 * n) c"
proof (induction n arbitrary: c)
  case 0
  then show ?case by (simp add: digits_val_Nil symbols_ok_def)
next
  case (Suc n)
  have "checksumLoop (Suc n) c [] = checksumLoop n (BN_shrn c 5) ([BN_and c 31] @ [])"
    by simp
  also have "\<dots> = [BN_and c 31] @ checksumLoop n (BN_shrn c 5) []"
    by (rule checksumLoop_append)
  finally have unf: "checksumLoop (Suc n) c [] = take_bit 5 c # checksumLoop n (drop_bit 5 c) []"
    by (simp add: BN_and_def BN_shrn_def and_31 take_bit_eq_mod)
  have d: "0 \<le> take_bit 5 c" "take_bit 5 c < 2 ^ 5"
    using take_bit_int_less_exp [of 5 c] by simp_all
  have "take_bit (5 * Suc n) c = take_bit (5 * n) (drop_bit 5 c) * 2 ^ 5 + take_bit 5 c"
    using take_bit_split [of "5 * n" "5 * Suc n" c] by simp
  with Suc [of "drop_bit 5 c"] d show ?case
    unfolding unf by (simp add: digits_val_snoc symbols_ok_def)
qed

lemma checksumToArray_val:
  assumes "0 \<le> c" and "c < 2 ^ 40"
  shows "length (checksumToArray c) = 8" "symbols_ok 5 (checksumToArray c)"
    "digits_val 5 (checksumToArray c) = c"
  using checksumLoop_val [of 8 c] assms
  by (simp_all add: checksumToArray_def take_bit_int_eq_self)

lemma polymod_checksum_valid:
  "polymod (xs @ checksumToArray (polymod (xs @ [0, 0, 0, 0, 0, 0, 0, 0]))) = 0"
proof -
  define c where "c = foldl polymodStep 1 xs"
  define z where "z = foldl polymodStep c [0, 0, 0, 0, 0, 0, 0, 0]"
  define P where "P = polymod (xs @ [0, 0, 0, 0, 0, 0, 0, 0])"
  have P: "P = z XOR 1"
    by (simp add: P_def polymod_def z_def c_def BN_xor_def)
  have "z = polymodStep (foldl polymodStep c [0, 0, 0, 0, 0, 0, 0]) 0"
    by (simp add: z_def)
  then have zr: "0 \<le> z \<and> z < 2 ^ 40"
    using polymodStep_range [of 0 "foldl polymodStep c [0, 0, 0, 0, 0, 0, 0]"] by simp
  then have Pr: "0 \<le> P" "P < 2 ^ 40"
    using xor_range [of z 40 1] by (simp_all add: P)
  note cs = checksumToArray_val [OF Pr]
  have "foldl polymodStep c (checksumToArray P)
          = foldl polymodStep (c XOR 0) (checksumToArray P)"
    by simp
  also have "\<dots> = foldl polymodStep c (replicate (length (checksumToArray P)) 0)
                    XOR foldl polymodStep 0 (checksumToArray P)"
    by (rule polymod_run_linear)
  also have "\<dots> = z XOR P"
    using cs by (simp add: polymod_run_zero z_def numeral_eq_Suc)
  also have "\<dots> = 1"
    by (simp add: P flip: xor.assoc)
  finally have "foldl polymodStep c (checksumToArray P) = 1" .
  then show ?thesis
    by (simp add: polymod_def c_def P_def BN_xor_def)
qed

section \<open>The alphabet and the separator\<close>

lemma charset_props:
  "\<forall>n\<in>{0..<32}. lowerChar (CHARSET ! n) = CHARSET ! n \<and> CHARSET ! n \<noteq> CHR '':''
        \<and> index_of (CHARSET ! n) CHARSET = Some (int n)"
  by code_simp

lemma charset_symbol:
  assumes "0 \<le> v" and "v < 32"
  shows "lowerChar (CHARSET ! nat v) = CHARSET ! nat v" "CHARSET ! nat v \<noteq> CHR '':''"
    "index_of (CHARSET ! nat v) CHARSET = Some v"
proof -
  from assms have "nat v \<in> {0..<32}"
    by simp
  with charset_props
  have "lowerChar (CHARSET ! nat v) = CHARSET ! nat v \<and> CHARSET ! nat v \<noteq> CHR '':''
        \<and> index_of (CHARSET ! nat v) CHARSET = Some (int (nat v))"
    by blast
  with assms show "lowerChar (CHARSET ! nat v) = CHARSET ! nat v" "CHARSET ! nat v \<noteq> CHR '':''"
    "index_of (CHARSET ! nat v) CHARSET = Some v"
    by simp_all
qed

lemma base32_encode_ok:
  "symbols_ok 5 vs \<Longrightarrow> base32_encode vs = Inr (map (\<lambda>v. CHARSET ! nat v) vs)"
  by (induction vs) (simp_all add: symbols_ok_def)

lemma base32_encoded_lower:
  "symbols_ok 5 vs \<Longrightarrow> toLowerCase (map (\<lambda>v. CHARSET ! nat v) vs) = map (\<lambda>v. CHARSET ! nat v) vs"
  by (induction vs) (simp_all add: symbols_ok_def toLowerCase_def charset_symbol)

lemma base32_encoded_no_colon:
  assumes "symbols_ok 5 vs"
  shows "CHR '':'' \<notin> set (map (\<lambda>v. CHARSET ! nat v) vs)"
proof
  assume "CHR '':'' \<in> set (map (\<lambda>v. CHARSET ! nat v) vs)"
  then obtain v where v: "v \<in> set vs" "CHARSET ! nat v = CHR '':''"
    by auto
  from assms v(1) have "0 \<le> v" "v < 32"
    by (simp_all add: symbols_ok_def list_all_iff)
  then have "CHARSET ! nat v \<noteq> CHR '':''"
    by (rule charset_symbol)
  with v(2) show False
    by simp
qed

lemma base32_decode_encoded:
  "symbols_ok 5 vs \<Longrightarrow> base32_decode (map (\<lambda>v. CHARSET ! nat v) vs) = Inr vs"
  by (induction vs) (simp_all add: symbols_ok_def charset_symbol)

lemma String_split_no_sep: "sep \<notin> set s \<Longrightarrow> String_split sep s = [s]"
  by (induction s) auto

lemma String_split_sep:
  "sep \<notin> set p \<Longrightarrow> String_split sep (p @ sep # rest) = p # String_split sep rest"
  by (induction p) auto

lemma toLowerCase_no_colon:
  assumes "CHR '':'' \<notin> set s"
  shows "CHR '':'' \<notin> set (toLowerCase s)"
proof
  assume "CHR '':'' \<in> set (toLowerCase s)"
  then obtain c where c: "c \<in> set s" "lowerChar c = CHR '':''"
    by (auto simp add: toLowerCase_def)
  then have "c = CHR '':''"
    by (simp add: lowerChar_colon)
  with c(1) assms show False
    by simp
qed

lemma prefixToArray_ok: "symbols_ok 5 (prefixToArray p)"
  unfolding prefixToArray_def symbols_ok_def
  by (induction p) (simp_all add: js_and_char)

section \<open>Encoding, then decoding\<close>

lemma getHashSizeBits_cases:
  "getHashSizeBits h = Inr sz \<Longrightarrow>
     (length h = 20 \<and> sz = 0) \<or> (length h = 24 \<and> sz = 1) \<or> (length h = 28 \<and> sz = 2)
     \<or> (length h = 32 \<and> sz = 3) \<or> (length h = 40 \<and> sz = 4) \<or> (length h = 48 \<and> sz = 5)
     \<or> (length h = 56 \<and> sz = 6) \<or> (length h = 64 \<and> sz = 7)"
  unfolding getHashSizeBits_def Let_def
  by (auto split: if_splits)

lemma versionByte_decoded:
  assumes "getHashSizeBits h = Inr sz"
  shows "getHashSize (getTypeBits t + sz) = int (length h) * 8"
    and "getType (getTypeBits t + sz) = Inr t"
    and "0 \<le> getTypeBits t + sz" and "getTypeBits t + sz < 2 ^ 8"
  using getHashSizeBits_cases [OF assms]
  by (cases t; auto simp add: getHashSize_def getType_def js_and_def ToInt32_def Let_def)+

lemma bytes_ok: "symbols_ok 8 (map uint (h :: 8 word list))"
proof -
  have "0 \<le> uint b \<and> uint b < 2 ^ 8" for b :: "8 word"
    using uint_lt2p [of b] by simp
  then show ?thesis
    by (simp add: symbols_ok_def list_all_iff)
qed

lemma encoder_payload:
  assumes "getHashSizeBits h = Inr sz"
  shows "\<exists>payloadData.
           convertBits ((getTypeBits t + sz) # map uint h) 8 5 False = Some (Inr payloadData)
         \<and> symbols_ok 5 payloadData
         \<and> convertBits payloadData 5 8 True = Some (Inr ((getTypeBits t + sz) # map uint h))"
proof -
  have ok: "symbols_ok 8 ((getTypeBits t + sz) # map uint h)"
    using versionByte_decoded(3,4) [OF assms, of t] bytes_ok [of h]
    by (simp add: symbols_ok_def)
  from convertBits_roundtrip [of 5 8, OF _ _ _ ok]
  show ?thesis
    by auto
qed

lemma polymod_padded_range:
  "0 \<le> polymod (xs @ [0, 0, 0, 0, 0, 0, 0, 0]) \<and> polymod (xs @ [0, 0, 0, 0, 0, 0, 0, 0]) < 2 ^ 40"
proof -
  define c where "c = foldl polymodStep 1 (xs @ [0, 0, 0, 0, 0, 0, 0])"
  have "foldl polymodStep 1 (xs @ [0, 0, 0, 0, 0, 0, 0, 0]) = polymodStep c 0"
    by (simp add: c_def)
  moreover have "0 \<le> polymodStep c 0 \<and> polymodStep c 0 < 2 ^ 40"
    by (rule polymodStep_range) simp_all
  ultimately show ?thesis
    using xor_range [of "polymodStep c 0" 40 1]
    by (simp add: polymod_def BN_xor_def)
qed

lemma hashToCashAddress_success:
  assumes "getHashSizeBits h = Inr sz"
  shows "\<exists>payloadData checksum.
           symbols_ok 5 payloadData \<and> length checksum = 8 \<and> symbols_ok 5 checksum
         \<and> convertBits payloadData 5 8 True = Some (Inr ((getTypeBits t + sz) # map uint h))
         \<and> validChecksum p (payloadData @ checksum)
         \<and> hashToCashAddress h t p ip
             = Some (Inr ((if ip then p @ '':'' else [])
                          @ map (\<lambda>v. CHARSET ! nat v) (payloadData @ checksum)))"
proof -
  from encoder_payload [OF assms, of t]
  obtain payloadData where pd:
    "convertBits ((getTypeBits t + sz) # map uint h) 8 5 False = Some (Inr payloadData)"
    "symbols_ok 5 payloadData"
    "convertBits payloadData 5 8 True = Some (Inr ((getTypeBits t + sz) # map uint h))"
    by blast
  define xs where "xs = (prefixToArray p @ [0]) @ payloadData"
  define checksum where "checksum = checksumToArray (polymod (xs @ [0, 0, 0, 0, 0, 0, 0, 0]))"
  from polymod_padded_range [of xs]
  have cs: "length checksum = 8" "symbols_ok 5 checksum"
    unfolding checksum_def by (simp_all add: checksumToArray_val)
  have "polymod (xs @ checksum) = 0"
    unfolding checksum_def by (rule polymod_checksum_valid)
  then have valid: "validChecksum p (payloadData @ checksum)"
    by (simp add: validChecksum_def xs_def BN_eqn_def)
  from pd(2) cs(2) have "symbols_ok 5 (payloadData @ checksum)"
    by (simp add: symbols_ok_append)
  then have enc: "base32_encode (payloadData @ checksum)
                    = Inr (map (\<lambda>v. CHARSET ! nat v) (payloadData @ checksum))"
    by (rule base32_encode_ok)
  have "hashToCashAddress h t p ip
          = Some (Inr ((if ip then p @ '':'' else [])
                       @ map (\<lambda>v. CHARSET ! nat v) (payloadData @ checksum)))"
    unfolding hashToCashAddress_def Let_def assms
    using pd(1) enc
    by (simp add: checksum_def xs_def)
  with pd(2,3) cs valid show ?thesis
    by blast
qed

lemma decode_explicit_prefix:
  assumes "p = toLowerCase p" and "CHR '':'' \<notin> set p"
    and "symbols_ok 5 payload" and "validChecksum p payload"
  shows "resolvePrefix (p @ '':'' @ map (\<lambda>v. CHARSET ! nat v) payload) ps = Inr (p, payload)"
proof -
  let ?enc = "map (\<lambda>v. CHARSET ! nat v) payload"
  let ?a = "p @ CHR '':'' # ?enc"
  have lenc: "toLowerCase ?enc = ?enc"
    using assms(3) by (rule base32_encoded_lower)
  have "toLowerCase ?a = toLowerCase p @ CHR '':'' # toLowerCase ?enc"
    by (simp add: toLowerCase_def lowerChar_colon_eq)
  with assms(1) lenc have low: "toLowerCase ?a = ?a"
    by simp
  then have single: "hasSingleCase ?a"
    by (simp add: hasSingleCase_def Let_def)
  have "String_split CHR '':'' ?a = p # String_split CHR '':'' ?enc"
    using assms(2) by (simp add: String_split_sep)
  also have "String_split CHR '':'' ?enc = [?enc]"
    using assms(3) by (intro String_split_no_sep base32_encoded_no_colon)
  finally have pieces: "String_split CHR '':'' ?a = [p, ?enc]" .
  have dec: "base32_decode (toLowerCase ?enc) = Inr payload"
    using assms(3) by (simp only: lenc base32_decode_encoded)
  have "resolvePrefix ?a ps = Inr (p, payload)"
    unfolding resolvePrefix_def Let_def
    using single assms(4) dec
    by (simp add: low pieces)
  then show ?thesis
    by simp
qed

lemma roundtrip_general:
  assumes "getHashSizeBits h = Inr sz" and "p = toLowerCase p" and "CHR '':'' \<notin> set p"
  shows "\<exists>address payload. hashToCashAddress h t p True = Some (Inr address)
           \<and> resolvePrefix address ps = Inr (p, payload)
           \<and> cashAddressToHash address ps = Some (Inr \<lparr>scriptHash = h, type = t\<rparr>)"
proof -
  from hashToCashAddress_success [OF assms(1), of t p True]
  obtain payloadData checksum where e:
    "symbols_ok 5 payloadData" "length checksum = 8" "symbols_ok 5 checksum"
    "convertBits payloadData 5 8 True = Some (Inr ((getTypeBits t + sz) # map uint h))"
    "validChecksum p (payloadData @ checksum)"
    "hashToCashAddress h t p True
       = Some (Inr (p @ '':'' @ map (\<lambda>v. CHARSET ! nat v) (payloadData @ checksum)))"
    by auto
  define address where "address = p @ '':'' @ map (\<lambda>v. CHARSET ! nat v) (payloadData @ checksum)"
  from e(1,3) have ok: "symbols_ok 5 (payloadData @ checksum)"
    by (simp add: symbols_ok_append)
  have res: "resolvePrefix address ps = Inr (p, payloadData @ checksum)"
    unfolding address_def using assms(2,3) ok e(5) by (rule decode_explicit_prefix)
  have strip: "take (length (payloadData @ checksum) - 8) (payloadData @ checksum) = payloadData"
    using e(2) by simp
  have "cashAddressToHash address ps = Some (Inr \<lparr>scriptHash = h, type = t\<rparr>)"
    unfolding cashAddressToHash_def res
    by (simp only: prod.case sum.case strip e(4) option.case list.case
          versionByte_decoded(1,2) [OF assms(1)])
       (simp add: comp_def)
  with e(6) res show ?thesis
    unfolding address_def by blast
qed

section \<open>The round trip\<close>

lemma getHashSizeBits_table:
  "getHashSizeBits h = (case map_of sizeCodeTable (int (length h) * 8) of
                          None \<Rightarrow> Inl UnsupportedHashSize
                        | Some sizeCode \<Rightarrow> Inr sizeCode)"
  by (simp add: getHashSizeBits_def sizeCodeTable_def Let_def)

lemma sizeCodeTable_dom:
  "map_of sizeCodeTable n = None \<longleftrightarrow> n \<notin> {160, 192, 224, 256, 320, 384, 448, 512}"
  by (simp add: sizeCodeTable_def)

lemma getTypeBits_spec: "getTypeBits t = typeBits_spec t"
  by (cases t) simp_all

lemma getHashSizeBits_length:
  "length h \<in> {20, 24, 28, 32, 40, 48, 56, 64} \<Longrightarrow> \<exists>sz. getHashSizeBits h = Inr sz"
  by (auto simp add: getHashSizeBits_def Let_def)

text \<open>
  C1 as stated, for every prefix, fails: the prefix \<open>a:b\<close> is encoded without
  complaint, and the decoder then finds three parts and rejects the address.
\<close>

theorem C1_roundtrip_counterexample:
  "hashToCashAddress (replicate 20 0) scripthash ''a:b'' True
     = Some (Inr ''a:b:pqqqqqqqqqqqqqqqqqqqqqqqqqqqqqqqqqeepycv7j'')
   \<and> cashAddressToHash ''a:b:pqqqqqqqqqqqqqqqqqqqqqqqqqqqqqqqqqeepycv7j'' [''a:b'']
     = Some (Inl InvalidFormat)"
  by code_simp

text \<open>
  C1, amended: for every hash of 20, 24, 28, 32, 40, 48, 56 or 64 bytes, every type and
  every lowercase ASCII prefix without a colon, \<open>hashToCashAddress\<close> with
  \<open>includePrefix\<close> returns an address, and \<open>cashAddressToHash\<close> with the
  candidates \<open>[prefix]\<close> returns the original hash and type from it; the prefix the
  decoder selects on the way is the original one.
\<close>

theorem C1_roundtrip:
  assumes "length hash \<in> {20, 24, 28, 32, 40, 48, 56, 64}"
    and "ascii prefix" and "prefix = toLowerCase prefix" and "CHR '':'' \<notin> set prefix"
  shows "\<exists>address payload.
           hashToCashAddress hash type' prefix True = Some (Inr address)
         \<and> resolvePrefix address [prefix] = Inr (prefix, payload)
         \<and> cashAddressToHash address [prefix] = Some (Inr \<lparr>scriptHash = hash, type = type'\<rparr>)"
proof -
  from assms(1) obtain sz where "getHashSizeBits hash = Inr sz"
    using getHashSizeBits_length by blast
  then show ?thesis
    using assms(3,4) by (rule roundtrip_general)
qed

theorem C1_roundtrip_witness:
  "hashToCashAddress (replicate 20 0) pubkeyhash ''bitcoincash'' True
     = Some (Inr ''bitcoincash:qqqqqqqqqqqqqqqqqqqqqqqqqqqqqqqqqqfnhks603'')
   \<and> cashAddressToHash ''bitcoincash:qqqqqqqqqqqqqqqqqqqqqqqqqqqqqqqqqqfnhks603'' [''bitcoincash'']
     = Some (Inr \<lparr>scriptHash = replicate 20 0, type = pubkeyhash\<rparr>)"
proof -
  have h: "length (replicate 20 (0 :: 8 word)) \<in> {20, 24, 28, 32, 40, 48, 56, 64}"
    by simp
  have a: "ascii ''bitcoincash''" by code_simp
  have l: "''bitcoincash'' = toLowerCase ''bitcoincash''" by code_simp
  have c: "CHR '':'' \<notin> set ''bitcoincash''" by simp
  have e: "hashToCashAddress (replicate 20 0) pubkeyhash ''bitcoincash'' True
             = Some (Inr ''bitcoincash:qqqqqqqqqqqqqqqqqqqqqqqqqqqqqqqqqqfnhks603'')"
    by code_simp
  from C1_roundtrip [OF h a l c, of pubkeyhash] e show ?thesis
    by auto
qed

section \<open>The version byte\<close>

text \<open>
  C5: for every hash, type and prefix, the encoder fails with \<open>UnsupportedHashSize\<close>
  if and only if eight times the length of the hash is not one of 160, 192, 224, 256,
  320, 384, 448, 512; otherwise it returns an address whose payload, decoded from the
  alphabet, stripped of its eight checksum symbols and regrouped to bytes, starts with
  the version byte \<open>typeBits type + sizeCode\<close>, the size code taken from the table
  of the specification, followed by the hash.
\<close>

theorem C5_version_byte:
  "(hashToCashAddress hash type' prefix includePrefix = Some (Inl UnsupportedHashSize)
      \<longleftrightarrow> int (length hash) * 8 \<notin> {160, 192, 224, 256, 320, 384, 448, 512})
   \<and> (int (length hash) * 8 \<in> {160, 192, 224, 256, 320, 384, 448, 512} \<longrightarrow>
        (\<exists>sizeCode payloadData checksum encoded.
            map_of sizeCodeTable (int (length hash) * 8) = Some sizeCode
          \<and> hashToCashAddress hash type' prefix includePrefix
              = Some (Inr ((if includePrefix then prefix @ '':'' else []) @ encoded))
          \<and> base32_decode encoded = Inr (payloadData @ checksum)
          \<and> length checksum = 8
          \<and> convertBits payloadData 5 8 True
              = Some (Inr ((typeBits_spec type' + sizeCode) # map uint hash))))"
proof (cases "map_of sizeCodeTable (int (length hash) * 8)")
  case None
  then have "getHashSizeBits hash = Inl UnsupportedHashSize"
    by (simp add: getHashSizeBits_table)
  then have "hashToCashAddress hash type' prefix includePrefix = Some (Inl UnsupportedHashSize)"
    by (simp add: hashToCashAddress_def)
  with None show ?thesis
    by (simp add: sizeCodeTable_dom)
next
  case (Some sizeCode)
  then have sz: "getHashSizeBits hash = Inr sizeCode"
    by (simp add: getHashSizeBits_table)
  from Some have dom: "int (length hash) * 8 \<in> {160, 192, 224, 256, 320, 384, 448, 512}"
    using sizeCodeTable_dom [of "int (length hash) * 8"] by simp
  from hashToCashAddress_success [OF sz, of type' prefix includePrefix]
  obtain payloadData checksum where e:
    "symbols_ok 5 payloadData" "length checksum = 8" "symbols_ok 5 checksum"
    "convertBits payloadData 5 8 True = Some (Inr ((getTypeBits type' + sizeCode) # map uint hash))"
    "hashToCashAddress hash type' prefix includePrefix
       = Some (Inr ((if includePrefix then prefix @ '':'' else [])
                    @ map (\<lambda>v. CHARSET ! nat v) (payloadData @ checksum)))"
    by blast
  from e(1,3) have "symbols_ok 5 (payloadData @ checksum)"
    by (simp add: symbols_ok_append)
  then have dec: "base32_decode (map (\<lambda>v. CHARSET ! nat v) (payloadData @ checksum))
                    = Inr (payloadData @ checksum)"
    by (rule base32_decode_encoded)
  from e(5) have ok: "hashToCashAddress hash type' prefix includePrefix \<noteq> Some (Inl UnsupportedHashSize)"
    by simp
  from Some e(2,4,5) dec
  have "\<exists>sizeCode payloadData checksum encoded.
            map_of sizeCodeTable (int (length hash) * 8) = Some sizeCode
          \<and> hashToCashAddress hash type' prefix includePrefix
              = Some (Inr ((if includePrefix then prefix @ '':'' else []) @ encoded))
          \<and> base32_decode encoded = Inr (payloadData @ checksum)
          \<and> length checksum = 8
          \<and> convertBits payloadData 5 8 True
              = Some (Inr ((typeBits_spec type' + sizeCode) # map uint hash))"
    unfolding getTypeBits_spec by blast
  with ok dom show ?thesis
    by blast
qed

theorem C5_version_byte_witness:
  "hashToCashAddress (replicate 21 0) scripthash ''bitcoincash'' True
     = Some (Inl UnsupportedHashSize)
   \<and> hashToCashAddress (replicate 20 0) scripthash ''bitcoincash'' True
     \<noteq> Some (Inl UnsupportedHashSize)"
  using C5_version_byte [of "replicate 21 0" scripthash "''bitcoincash''" True]
        C5_version_byte [of "replicate 20 0" scripthash "''bitcoincash''" True]
  by simp

section \<open>What the decoder returns\<close>

lemma validChecksum_polymod:
  "validChecksum p payload \<longleftrightarrow> polymod (prefixToArray p @ [0] @ payload) = 0"
  by (simp add: validChecksum_def BN_eqn_def)

lemma candidateLoop_None:
  "candidateLoop ps payload = None \<longleftrightarrow> (\<forall>p\<in>set ps. \<not> validChecksum p payload)"
  by (induction ps) simp_all

lemma candidateLoop_Some:
  "candidateLoop ps payload = Some p \<Longrightarrow>
     \<exists>i<length ps. ps ! i = p \<and> validChecksum p payload
        \<and> (\<forall>j<i. \<not> validChecksum (ps ! j) payload)"
proof (induction ps)
  case Nil
  then show ?case by simp
next
  case (Cons c cs)
  show ?case
  proof (cases "validChecksum c payload")
    case True
    with Cons.prems have "c = p"
      by simp
    with True have "0 < length (c # cs) \<and> (c # cs) ! 0 = p \<and> validChecksum p payload
        \<and> (\<forall>j<0. \<not> validChecksum ((c # cs) ! j) payload)"
      by simp
    then show ?thesis
      by blast
  next
    case False
    with Cons.prems have "candidateLoop cs payload = Some p"
      by simp
    from Cons.IH [OF this] obtain i where i: "i < length cs" "cs ! i = p"
      "validChecksum p payload" "\<forall>j<i. \<not> validChecksum (cs ! j) payload"
      by blast
    have "\<forall>j<Suc i. \<not> validChecksum ((c # cs) ! j) payload"
    proof (intro allI impI)
      fix j assume "j < Suc i"
      then show "\<not> validChecksum ((c # cs) ! j) payload"
        using False i(4) by (cases j) simp_all
    qed
    with i(1-3) have "Suc i < length (c # cs) \<and> (c # cs) ! Suc i = p \<and> validChecksum p payload
        \<and> (\<forall>j<Suc i. \<not> validChecksum ((c # cs) ! j) payload)"
      by simp
    then show ?thesis
      by blast
  qed
qed

lemma resolvePrefix_valid:
  "resolvePrefix address ps = Inr (p, payload) \<Longrightarrow> validChecksum p payload"
  unfolding resolvePrefix_def Let_def
  by (auto split: if_splits sum.splits option.splits dest: candidateLoop_Some)

lemma resolvePrefix_explicit:
  assumes "resolvePrefix address ps = Inr (prefix, payload)"
    and "String_split CHR '':'' (toLowerCase address) = [p, e]"
  shows "prefix = p"
  using assms unfolding resolvePrefix_def Let_def
  by (auto split: if_splits sum.splits option.splits)

lemma resolvePrefix_candidate:
  assumes "resolvePrefix address ps = Inr (prefix, payload)"
    and "String_split CHR '':'' (toLowerCase address) = [e]"
  shows "\<exists>i<length ps. ps ! i = prefix \<and> (\<forall>j<i. \<not> validChecksum (ps ! j) payload)"
  using assms unfolding resolvePrefix_def Let_def
  by (auto split: if_splits sum.splits option.splits dest: candidateLoop_Some)

lemma cashAddressToHash_InvalidChecksum:
  "cashAddressToHash address ps = Some (Inl InvalidChecksum)
     \<longleftrightarrow> resolvePrefix address ps = Inl InvalidChecksum"
  unfolding cashAddressToHash_def
  by (auto split: sum.splits option.splits list.splits if_splits prod.splits
           dest: convertBits_error getType_error)

text \<open>
  C2 as stated fails: the decoder returns no prefix. Two addresses whose prefixes
  resolve differently, \<open>bitcoincash\<close> and \<open>bchtest\<close>, decode to one and the
  same value, which therefore does not contain the resolved prefix.
\<close>

theorem C2_decoder_result_counterexample:
  "cashAddressToHash ''bitcoincash:qqqqqqqqqqqqqqqqqqqqqqqqqqqqqqqqqqfnhks603'' []
     = Some (Inr \<lparr>scriptHash = replicate 20 0, type = pubkeyhash\<rparr>)
   \<and> cashAddressToHash ''bchtest:qqqqqqqqqqqqqqqqqqqqqqqqqqqqqqqqqqdpn3jdgd'' []
     = Some (Inr \<lparr>scriptHash = replicate 20 0, type = pubkeyhash\<rparr>)
   \<and> map_sum id fst (resolvePrefix ''bitcoincash:qqqqqqqqqqqqqqqqqqqqqqqqqqqqqqqqqqfnhks603'' [])
     = Inr ''bitcoincash''
   \<and> map_sum id fst (resolvePrefix ''bchtest:qqqqqqqqqqqqqqqqqqqqqqqqqqqqqqqqqqdpn3jdgd'' [])
     = Inr ''bchtest''"
  by code_simp

text \<open>
  C2, amended: for every successfully decoded address the decoder returns a record of
  two fields, the hash bytes and the address type, both read from the regrouped
  payload. The resolved prefix (the explicit prefix when one was given, the first
  validating candidate otherwise) validates the checksum and is not part of the
  result.
\<close>

theorem C2_decoder_result:
  assumes "cashAddressToHash address cashAddrPrefixes = Some (Inr info)"
  shows "\<exists>prefix payload versionByte hash.
           resolvePrefix address cashAddrPrefixes = Inr (prefix, payload)
         \<and> validChecksum prefix payload
         \<and> (\<forall>p e. String_split CHR '':'' (toLowerCase address) = [p, e] \<longrightarrow> prefix = p)
         \<and> (\<forall>e. String_split CHR '':'' (toLowerCase address) = [e] \<longrightarrow>
               (\<exists>i<length cashAddrPrefixes. cashAddrPrefixes ! i = prefix
                  \<and> (\<forall>j<i. \<not> validChecksum (cashAddrPrefixes ! j) payload)))
         \<and> convertBits (take (length payload - 8) payload) 5 8 True
              = Some (Inr (versionByte # hash))
         \<and> getHashSize versionByte = int (length hash) * 8
         \<and> getType versionByte = Inr (type info)
         \<and> info = \<lparr>scriptHash = map word_of_int hash, type = type info\<rparr>"
proof -
  from assms obtain prefix payload where res:
    "resolvePrefix address cashAddrPrefixes = Inr (prefix, payload)"
    unfolding cashAddressToHash_def by (auto split: sum.splits)
  from assms res obtain versionByte hash where cb:
    "convertBits (take (length payload - 8) payload) 5 8 True = Some (Inr (versionByte # hash))"
    unfolding cashAddressToHash_def
    by (auto split: sum.splits option.splits list.splits if_splits)
  from assms res cb have rest: "getHashSize versionByte = int (length hash) * 8"
    "getType versionByte = Inr (type info)"
    "info = \<lparr>scriptHash = map word_of_int hash, type = type info\<rparr>"
    unfolding cashAddressToHash_def
    by (auto split: sum.splits if_splits)
  from res have "validChecksum prefix payload"
    by (rule resolvePrefix_valid)
  with res cb rest resolvePrefix_explicit [OF res] resolvePrefix_candidate [OF res]
  show ?thesis
    by blast
qed

theorem C2_decoder_result_witness:
  "\<exists>prefix payload versionByte hash.
      resolvePrefix ''bitcoincash:qqqqqqqqqqqqqqqqqqqqqqqqqqqqqqqqqqfnhks603'' [''bitcoincash'']
        = Inr (prefix, payload)
    \<and> convertBits (take (length payload - 8) payload) 5 8 True = Some (Inr (versionByte # hash))
    \<and> getType versionByte = Inr pubkeyhash
    \<and> replicate 20 (0 :: 8 word) = map word_of_int hash"
proof -
  have d: "cashAddressToHash ''bitcoincash:qqqqqqqqqqqqqqqqqqqqqqqqqqqqqqqqqqfnhks603''
             [''bitcoincash''] = Some (Inr \<lparr>scriptHash = replicate 20 0, type = pubkeyhash\<rparr>)"
    by code_simp
  from C2_decoder_result [OF d] show ?thesis
    by auto
qed

section \<open>Prefix discovery\<close>

lemma resolvePrefix_no_prefix:
  assumes "hasSingleCase address" and "CHR '':'' \<notin> set address"
    and "base32_decode (toLowerCase address) = Inr payload"
  shows "resolvePrefix address ps =
           (case candidateLoop ps payload of
              None \<Rightarrow> Inl InvalidChecksum
            | Some p \<Rightarrow> Inr (p, payload))"
proof -
  from assms(2) have "CHR '':'' \<notin> set (toLowerCase address)"
    by (rule toLowerCase_no_colon)
  then have pieces: "String_split CHR '':'' (toLowerCase address) = [toLowerCase address]"
    by (rule String_split_no_sep)
  show ?thesis
    unfolding resolvePrefix_def Let_def
    using assms(1,3) by (simp add: pieces toLowerCase_idem)
qed

text \<open>
  C6: for every single-case address string without a colon whose characters
  decode to the symbols \<open>payload\<close>, and every list of candidate prefixes: either
  some candidate validates, that is \<open>polymod (prefixSymbols @ [0] @ payload) = 0\<close>,
  and the decoder selects the first such candidate in list order and does not fail
  with \<open>InvalidChecksum\<close>; or no candidate validates and the decoder fails with
  \<open>InvalidChecksum\<close>.
\<close>

theorem C6_first_candidate:
  assumes "hasSingleCase address" and "CHR '':'' \<notin> set address"
    and "base32_decode (toLowerCase address) = Inr payload"
  shows "(\<exists>i<length cashAddrPrefixes.
            polymod (prefixToArray (cashAddrPrefixes ! i) @ [0] @ payload) = 0
          \<and> (\<forall>j<i. polymod (prefixToArray (cashAddrPrefixes ! j) @ [0] @ payload) \<noteq> 0)
          \<and> resolvePrefix address cashAddrPrefixes = Inr (cashAddrPrefixes ! i, payload)
          \<and> cashAddressToHash address cashAddrPrefixes \<noteq> Some (Inl InvalidChecksum))
       \<or> ((\<forall>p\<in>set cashAddrPrefixes. polymod (prefixToArray p @ [0] @ payload) \<noteq> 0)
          \<and> resolvePrefix address cashAddrPrefixes = Inl InvalidChecksum
          \<and> cashAddressToHash address cashAddrPrefixes = Some (Inl InvalidChecksum))"
proof (cases "candidateLoop cashAddrPrefixes payload")
  case None
  with resolvePrefix_no_prefix [OF assms, of cashAddrPrefixes]
  have res: "resolvePrefix address cashAddrPrefixes = Inl InvalidChecksum"
    by simp
  from None have "\<forall>p\<in>set cashAddrPrefixes. polymod (prefixToArray p @ [0] @ payload) \<noteq> 0"
    by (simp add: candidateLoop_None validChecksum_polymod)
  with res show ?thesis
    by (simp add: cashAddressToHash_InvalidChecksum)
next
  case (Some p)
  with resolvePrefix_no_prefix [OF assms, of cashAddrPrefixes]
  have res: "resolvePrefix address cashAddrPrefixes = Inr (p, payload)"
    by simp
  from candidateLoop_Some [OF Some] obtain i where i: "i < length cashAddrPrefixes"
    "cashAddrPrefixes ! i = p" "validChecksum p payload"
    "\<forall>j<i. \<not> validChecksum (cashAddrPrefixes ! j) payload"
    by blast
  from res have "cashAddressToHash address cashAddrPrefixes \<noteq> Some (Inl InvalidChecksum)"
    by (simp add: cashAddressToHash_InvalidChecksum)
  with i res have "i < length cashAddrPrefixes
          \<and> polymod (prefixToArray (cashAddrPrefixes ! i) @ [0] @ payload) = 0
          \<and> (\<forall>j<i. polymod (prefixToArray (cashAddrPrefixes ! j) @ [0] @ payload) \<noteq> 0)
          \<and> resolvePrefix address cashAddrPrefixes = Inr (cashAddrPrefixes ! i, payload)
          \<and> cashAddressToHash address cashAddrPrefixes \<noteq> Some (Inl InvalidChecksum)"
    by (simp add: validChecksum_polymod)
  then show ?thesis
    by blast
qed

theorem C6_first_candidate_witness:
  "resolvePrefix ''qqqqqqqqqqqqqqqqqqqqqqqqqqqqqqqqqqfnhks603'' [''bchtest'', ''bitcoincash'']
     = Inr (''bitcoincash'', replicate 34 0 @ [9, 19, 23, 22, 16, 26, 15, 17])
   \<and> cashAddressToHash ''qqqqqqqqqqqqqqqqqqqqqqqqqqqqqqqqqqfnhks603'' [''bchtest'', ''bitcoincash'']
     \<noteq> Some (Inl InvalidChecksum)
   \<and> cashAddressToHash ''qqqqqqqqqqqqqqqqqqqqqqqqqqqqqqqqqqfnhks603'' [''bchtest'']
     = Some (Inl InvalidChecksum)"
proof -
  let ?a = "''qqqqqqqqqqqqqqqqqqqqqqqqqqqqqqqqqqfnhks603''"
  let ?payload = "replicate 34 0 @ [9, 19, 23, 22, 16, 26, 15, 17 :: int]"
  have s: "hasSingleCase ?a" by code_simp
  have c: "CHR '':'' \<notin> set ?a" by simp
  have d: "base32_decode (toLowerCase ?a) = Inr ?payload" by code_simp
  have v0: "polymod (prefixToArray ''bchtest'' @ [0] @ ?payload) \<noteq> 0" by code_simp
  have v1: "polymod (prefixToArray ''bitcoincash'' @ [0] @ ?payload) = 0" by code_simp
  have r: "resolvePrefix ?a [''bchtest'', ''bitcoincash''] = Inr (''bitcoincash'', ?payload)"
    by code_simp
  from C6_first_candidate [OF s c d, of "[''bchtest'', ''bitcoincash'']"] v1
  have two: "cashAddressToHash ?a [''bchtest'', ''bitcoincash''] \<noteq> Some (Inl InvalidChecksum)"
    by auto
  from C6_first_candidate [OF s c d, of "[''bchtest'']"] v0
  have one: "cashAddressToHash ?a [''bchtest''] = Some (Inl InvalidChecksum)"
    by auto
  from r two one show ?thesis
    by simp
qed

section \<open>Bit 7 of the version byte\<close>

text \<open>
  C9: the decoder reads \<open>versionByte & 120\<close> and \<open>versionByte & 7\<close> only, so
  adding 128 to a version byte below 128 changes neither the type nor the hash size.
  The address \<open>bitcoincash:sqqqqqqqqqqqqqqqqqqqqqqqqqqqqqqqqqc3zsmrpy\<close> has a valid
  checksum and the version byte 128; it decodes to the same hash and type as the
  canonical address of the 20-byte zero hash, which the encoder produces with version
  byte 0.
\<close>

theorem C9_bit7_ignored:
  "(\<forall>v\<in>set [0..127]. getType (v + 128) = getType v \<and> getHashSize (v + 128) = getHashSize v)
   \<and> hashToCashAddress (replicate 20 0) pubkeyhash ''bitcoincash'' True
       = Some (Inr ''bitcoincash:qqqqqqqqqqqqqqqqqqqqqqqqqqqqqqqqqqfnhks603'')
   \<and> cashAddressToHash ''bitcoincash:qqqqqqqqqqqqqqqqqqqqqqqqqqqqqqqqqqfnhks603'' [''bitcoincash'']
       = Some (Inr \<lparr>scriptHash = replicate 20 0, type = pubkeyhash\<rparr>)
   \<and> cashAddressToHash ''bitcoincash:sqqqqqqqqqqqqqqqqqqqqqqqqqqqqqqqqqc3zsmrpy'' [''bitcoincash'']
       = Some (Inr \<lparr>scriptHash = replicate 20 0, type = pubkeyhash\<rparr>)
   \<and> resolvePrefix ''bitcoincash:sqqqqqqqqqqqqqqqqqqqqqqqqqqqqqqqqqc3zsmrpy'' [''bitcoincash'']
       = Inr (''bitcoincash'', [16] @ replicate 33 0 @ [24, 17, 2, 16, 27, 3, 1, 4])
   \<and> convertBits ([16] @ replicate 33 0) 5 8 True = Some (Inr (128 # replicate 20 0))
   \<and> ''bitcoincash:sqqqqqqqqqqqqqqqqqqqqqqqqqqqqqqqqqc3zsmrpy''
       \<noteq> ''bitcoincash:qqqqqqqqqqqqqqqqqqqqqqqqqqqqqqqqqqfnhks603''"
  by code_simp

theorem C9_bit7_ignored_witness:
  "getType 136 = getType 8 \<and> getHashSize 131 = getHashSize 3"
  using C9_bit7_ignored [THEN conjunct1, THEN bspec, of 8]
        C9_bit7_ignored [THEN conjunct1, THEN bspec, of 3]
  by simp

section \<open>Padding and rejected values\<close>

text \<open>
  With an output width that is not positive the loop of \<open>pushLoop\<close> does not
  return once it is entered; with a positive width it always returns.
\<close>

lemma pushLoop_Some_positive:
  assumes "pushLoop a to m bits r = Some y"
  shows "\<not> (to \<le> 0 \<and> to \<le> bits)"
proof (rule pushLoop.raw_induct
         [where P = "\<lambda>a to m bits r y. \<not> (to \<le> 0 \<and> to \<le> bits)", OF _ assms])
  fix f :: "int \<Rightarrow> int \<Rightarrow> int \<Rightarrow> int \<Rightarrow> int list \<Rightarrow> (int \<times> int list) option"
    and a to m bits r y
  assume IH: "\<And>a' to' m' bits' r' y'.
                 f a' to' m' bits' r' = Some y' \<Longrightarrow> \<not> (to' \<le> 0 \<and> to' \<le> bits')"
    and step: "(if to \<le> bits
                then f a to m (bits - to) (r @ [js_and (js_shr a (bits - to)) m])
                else Some (bits, r)) = Some y"
  show "\<not> (to \<le> 0 \<and> to \<le> bits)"
  proof (cases "to \<le> bits")
    case True
    with step have "f a to m (bits - to) (r @ [js_and (js_shr a (bits - to)) m]) = Some y"
      by simp
    from IH [OF this] True show ?thesis
      by auto
  next
    case False
    then show ?thesis by simp
  qed
qed

lemma pushLoop_diverges: "to \<le> 0 \<Longrightarrow> to \<le> bits \<Longrightarrow> pushLoop a to m bits r = None"
  using pushLoop_Some_positive [of a to m bits r] by (cases "pushLoop a to m bits r") auto

lemma pushLoop_returns:
  assumes "0 < to"
  shows "\<exists>b r'. pushLoop a to m bits r = Some (b, r') \<and> b < to \<and> (0 \<le> bits \<longrightarrow> b = bits mod to)"
proof (induction "nat bits" arbitrary: bits r rule: less_induct)
  case less
  show ?case
  proof (cases "to \<le> bits")
    case False
    then have "pushLoop a to m bits r = Some (bits, r)"
      by (subst pushLoop.simps) (simp only: if_False)
    with False show ?thesis
      by simp
  next
    case True
    with assms have sm: "nat (bits - to) < nat bits" and nn: "0 \<le> bits - to" "0 \<le> bits"
      by simp_all
    have unf: "pushLoop a to m bits r
                 = pushLoop a to m (bits - to) (r @ [js_and (js_shr a (bits - to)) m])"
      by (subst pushLoop.simps) (simp only: True if_True)
    from less [OF sm, of "r @ [js_and (js_shr a (bits - to)) m]"]
    obtain b r' where b: "pushLoop a to m (bits - to) (r @ [js_and (js_shr a (bits - to)) m]) = Some (b, r')"
      "b < to" "0 \<le> bits - to \<longrightarrow> b = (bits - to) mod to"
      by blast
    have "(bits - to) mod to = bits mod to"
      by simp
    with b nn unf show ?thesis
      by simp
  qed
qed

lemma convertLoop_rejects:
  assumes "0 < to"
  shows "\<exists>v\<in>set data. v < 0 \<or> js_shr v from \<noteq> 0 \<Longrightarrow>
     convertLoop data from to m st = Some (Inl InvalidArgument)"
proof (induction data arbitrary: st)
  case Nil
  then show ?case by simp
next
  case (Cons v data)
  obtain a b r where st: "st = (a, b, r)"
    by (cases st)
  show ?case
  proof (cases "v < 0 \<or> js_shr v from \<noteq> 0")
    case True
    then show ?thesis
      unfolding st by simp
  next
    case False
    with Cons.prems have rest: "\<exists>v\<in>set data. v < 0 \<or> js_shr v from \<noteq> 0"
      by auto
    define a1 where "a1 = js_or (js_shl a from) v"
    from pushLoop_returns [OF assms, of a1 m "b + from" r]
    obtain b1 r1 where p: "pushLoop a1 to m (b + from) r = Some (b1, r1)"
      by blast
    from Cons.IH [OF rest, of "(a1, b1, r1)"] False p show ?thesis
      unfolding st by (simp add: a1_def [symmetric] Let_def)
  qed
qed

lemma leftover_split:
  assumes "length r * t + b = n" and "b < t"
    and "digits_val t r * 2 ^ b + take_bit b a = N"
  shows "b = n mod t" "length r = n div t"
    "digits_val t r = N div 2 ^ b" "take_bit b (a::int) = N mod 2 ^ b"
proof -
  from assms(1,2) show "b = n mod t"
    by (metis mod_less mod_mult_self3)
  from assms(1,2) show "length r = n div t"
    by (metis div_mult_self3 div_less add.right_neutral less_nat_zero_code)
  have r: "0 \<le> take_bit b a" "take_bit b a < 2 ^ b"
    by simp_all
  from assms(3) have N: "N = digits_val t r * 2 ^ b + take_bit b a"
    by simp
  from r show "digits_val t r = N div 2 ^ b"
    unfolding N by simp
  from r show "take_bit b a = N mod 2 ^ b"
    unfolding N by simp
qed

text \<open>
  C4: let the output width \<open>to\<close> be positive. For widths \<open>from > 0\<close> with
  \<open>from + to \<le> 32\<close> and every input sequence whose values all fit in \<open>from\<close>
  bits, read the input as one number of \<open>length data * from\<close> bits. The leftover
  count is that bit length modulo \<open>to\<close>, and the leftover bits are the number
  modulo \<open>2 ^ leftover\<close>. Both modes compute the symbols of width \<open>to\<close> that
  spell the bits above the leftover ones. In non-strict mode one more symbol, the
  leftover bits shifted left to fill the output width, is emitted exactly when
  leftover bits remain. In strict mode the call fails with \<open>InvalidPadding\<close> exactly
  when the leftover count is at least \<open>from\<close> or that symbol is not zero, and
  returns the symbols otherwise. For every \<open>from\<close>, an input holding a value with
  \<open>value >> from \<noteq> 0\<close> fails with \<open>InvalidArgument\<close>, in both modes.
\<close>

theorem C4_padding:
  assumes "0 < to"
  shows "(0 < from \<and> from + to \<le> 32 \<and> (\<forall>v\<in>set data. 0 \<le> v \<and> v < 2 ^ nat from) \<longrightarrow>
           (let leftover = (int (length data) * from) mod to;
                number = digits_val (nat from) data;
                padded = (number mod 2 ^ nat leftover) * 2 ^ nat (to - leftover)
            in \<exists>result.
                 int (length result) = (int (length data) * from) div to
               \<and> symbols_ok (nat to) result
               \<and> digits_val (nat to) result = number div 2 ^ nat leftover
               \<and> convertBits data from to False
                   = Some (Inr (if leftover > 0 then result @ [padded] else result))
               \<and> convertBits data from to True
                   = Some (if leftover \<ge> from \<or> padded \<noteq> 0
                           then Inl InvalidPadding else Inr result)))
       \<and> ((\<exists>v\<in>set data. js_shr v from \<noteq> 0) \<longrightarrow>
             convertBits data from to strict = Some (Inl InvalidArgument))"
proof (intro conjI impI)
  assume h: "0 < from \<and> from + to \<le> 32 \<and> (\<forall>v\<in>set data. 0 \<le> v \<and> v < 2 ^ nat from)"
  define f where "f = nat from"
  define t where "t = nat to"
  from h assms have "0 < from" "from + to \<le> 32"
    by simp_all
  with assms have ft: "from = int f" "to = int t" "0 < f" "0 < t" "f + t \<le> 32"
    unfolding f_def t_def by linarith+
  from h have ok: "symbols_ok f data"
    by (simp add: symbols_ok_def list_all_iff f_def)
  from ft have t32: "t < 32"
    by simp
  define N where "N = digits_val f data"
  from convertLoop_final [OF ft(3,4,5) ok]
  obtain a b r where st:
    "convertLoop data (int f) (int t) (js_shl 1 (int t) - 1) (0, 0, []) = Some (Inr (a, int b, r))"
    "b < t" "symbols_ok t r" "length r * t + b = length data * f"
    "digits_val t r * 2 ^ b + take_bit b a = N"
    unfolding N_def by blast
  note sp = leftover_split [OF st(4) st(2) st(5)]
  have lo: "(int (length data) * from) mod to = int b"
    unfolding ft(1,2) sp(1) by (simp add: zmod_int mult.commute)
  have dv: "(int (length data) * from) div to = int (length r)"
    unfolding ft(1,2) sp(2) by (simp add: zdiv_int mult.commute)
  from st(2) have pad: "js_and (js_shl a (int t - int b)) (js_shl 1 (int t) - 1)
                     = (N mod 2 ^ b) * 2 ^ (t - b)"
    unfolding sp(4) [symmetric] by (intro js_padding t32) simp
  from st(2) have tb: "nat (int t - int b) = t - b"
    by simp
  have ns: "convertBits data (int f) (int t) False
              = Some (Inr (if int b > 0 then r @ [(N mod 2 ^ b) * 2 ^ (t - b)] else r))"
    by (simp add: convertBits_def Let_def st(1) pad)
  have s: "convertBits data (int f) (int t) True
             = Some (if int b \<ge> int f \<or> (N mod 2 ^ b) * 2 ^ (t - b) \<noteq> 0
                     then Inl InvalidPadding else Inr r)"
    by (simp add: convertBits_def Let_def st(1) pad)
  have "int (length r) = (int (length data) * from) div to
      \<and> symbols_ok (nat to) r
      \<and> digits_val (nat to) r = N div 2 ^ b
      \<and> convertBits data from to False
          = Some (Inr (if int b > 0 then r @ [(N mod 2 ^ b) * 2 ^ (t - b)] else r))
      \<and> convertBits data from to True
          = Some (if int b \<ge> from \<or> (N mod 2 ^ b) * 2 ^ (t - b) \<noteq> 0
                  then Inl InvalidPadding else Inr r)"
    using dv st(3) sp(3) ns s by (simp add: ft(1,2))
  then show "let leftover = (int (length data) * from) mod to;
                number = digits_val (nat from) data;
                padded = (number mod 2 ^ nat leftover) * 2 ^ nat (to - leftover)
            in \<exists>result.
                 int (length result) = (int (length data) * from) div to
               \<and> symbols_ok (nat to) result
               \<and> digits_val (nat to) result = number div 2 ^ nat leftover
               \<and> convertBits data from to False
                   = Some (Inr (if leftover > 0 then result @ [padded] else result))
               \<and> convertBits data from to True
                   = Some (if leftover \<ge> from \<or> padded \<noteq> 0
                           then Inl InvalidPadding else Inr result)"
    unfolding Let_def lo N_def [symmetric] f_def [symmetric]
    by (auto simp add: ft(2) tb)
next
  assume "\<exists>v\<in>set data. js_shr v from \<noteq> 0"
  then have "\<exists>v\<in>set data. v < 0 \<or> js_shr v from \<noteq> 0"
    by blast
  from convertLoop_rejects [OF assms this]
  show "convertBits data from to strict = Some (Inl InvalidArgument)"
    by (simp add: convertBits_def Let_def)
qed

theorem C4_padding_witness:
  "convertBits [1, 2, 3] 8 5 True = Some (Inl InvalidPadding)
   \<and> convertBits [31, 31] 5 8 True = Some (Inl InvalidPadding)
   \<and> (\<exists>result. length result = 4 \<and> digits_val 5 result = 4128
         \<and> convertBits [1, 2, 3] 8 5 False = Some (Inr (result @ [6])))
   \<and> convertBits [1, 0] 5 8 True = Some (Inr [8])
   \<and> convertBits [1, 300] 8 5 True = Some (Inl InvalidArgument)"
proof -
  have t: "(0::int) < 5" "(0::int) < 8"
    by simp_all
  have n1: "digits_val 8 [1, 2, 3] = 66051" "digits_val 5 [31, 31] = 1023"
    "digits_val 5 [1, 0] = 32"
    by (simp_all add: digits_val_def)
  have f3: "\<exists>v\<in>set [1, 300 :: int]. js_shr v 8 \<noteq> 0"
    by code_simp
  from C4_padding [OF t(1), of 8 "[1, 2, 3]" True]
  have a: "convertBits [1, 2, 3] 8 5 True = Some (Inl InvalidPadding)"
    "\<exists>result. length result = 4 \<and> digits_val 5 result = 4128
         \<and> convertBits [1, 2, 3] 8 5 False = Some (Inr (result @ [6]))"
    by (auto simp add: Let_def n1)
  from C4_padding [OF t(2), of 5 "[31, 31]" True]
  have b: "convertBits [31, 31] 5 8 True = Some (Inl InvalidPadding)"
    by (auto simp add: Let_def n1)
  from C4_padding [OF t(2), of 5 "[1, 0]" True]
  obtain r where r: "length r = 1" "symbols_ok 8 r" "digits_val 8 r = 8"
    "convertBits [1, 0] 5 8 True = Some (Inr r)"
    by (auto simp add: Let_def n1)
  from r(1) obtain x where "r = [x]"
    by (cases r) simp_all
  with r(3) have "r = [8]"
    by (simp add: digits_val_def)
  with r(4) have c: "convertBits [1, 0] 5 8 True = Some (Inr [8])"
    by simp
  from C4_padding [OF t(1), of 8 "[1, 300]" True] f3
  have d: "convertBits [1, 300] 8 5 True = Some (Inl InvalidArgument)"
    by blast
  from a b c d show ?thesis
    by simp
qed

end
